theory Spec2Isabelle
  imports Main "HOL-Library.Multiset"
begin

section \<open>Python strings\<close>

text \<open>
  A Python \<^verbatim>\<open>str\<close> is modelled as a \<^typ>\<open>string\<close> whose characters are the code
  points below 256. On these, \<^verbatim>\<open>str.lower\<close> maps A-Z and the Latin-1 capitals
  (192-222 except the multiplication sign 215) 32 places up, and \<^verbatim>\<open>str.isspace\<close>,
  \<^verbatim>\<open>str.strip\<close> and the regular expression class \<^verbatim>\<open>\s\<close> all know the same twelve
  whitespace characters.
\<close>

definition lower_char :: "char \<Rightarrow> char" where
  "lower_char c =
     (let n = (of_char c :: nat) in
      if (65 \<le> n \<and> n \<le> 90) \<or> (192 \<le> n \<and> n \<le> 222 \<and> n \<noteq> 215)
      then char_of (n + 32) else c)"

definition lower :: "string \<Rightarrow> string" where
  "lower s = map lower_char s"

definition is_space :: "char \<Rightarrow> bool" where
  "is_space c =
     (let n = (of_char c :: nat) in
      (9 \<le> n \<and> n \<le> 13) \<or> (28 \<le> n \<and> n \<le> 32) \<or> n = 133 \<or> n = 160)"

definition strip :: "string \<Rightarrow> string" where
  "strip s = rev (dropWhile is_space (rev (dropWhile is_space s)))"

text \<open>\<^verbatim>\<open>k in s\<close> for two strings: \<open>k\<close> occurs in \<open>s\<close> as a contiguous substring.\<close>

primrec str_in :: "string \<Rightarrow> string \<Rightarrow> bool" where
  "str_in k [] = (k = [])"
| "str_in k (c # cs) = (take (length k) (c # cs) = k \<or> str_in k cs)"

datatype py_error = KeyError string | TemplateError

section \<open>Occasion rules and the occasion matcher\<close>

text \<open>
  The JSON configuration: a dictionary is an association list in file order, looked up
  with \<^const>\<open>map_of\<close>. The keys the code reads with \<^verbatim>\<open>.get(key, default)\<close> are
  optional.
\<close>

record occasion_rule =
  keywords' :: "string list"
  allowed_categories :: "(string \<times> string list) list"
  forbidden_categories :: "string list option"
  style_notes :: string

record occasion_rules =
  occasions :: "(string \<times> occasion_rule) list"
  default_occasion :: "string option"

text \<open>The two nested loops of \<^verbatim>\<open>match_occasion\<close>: the keyword is used as configured.\<close>

fun first_match :: "string \<Rightarrow> (string \<times> occasion_rule) list \<Rightarrow> (string \<times> occasion_rule) option" where
  "first_match user_lower [] = None"
| "first_match user_lower ((occasion_name, rules) # rest) =
     (if list_ex (\<lambda>keyword. str_in keyword user_lower) (keywords' rules)
      then Some (occasion_name, rules)
      else first_match user_lower rest)"

definition match_occasion :: "occasion_rules \<Rightarrow> string \<Rightarrow> py_error + (string \<times> occasion_rule)" where
  "match_occasion cfg user_input =
     (let user_lower = lower user_input in
      case first_match user_lower (occasions cfg) of
        Some m \<Rightarrow> Inr m
      | None \<Rightarrow>
          (let default = (case default_occasion cfg of None \<Rightarrow> ''casual'' | Some d \<Rightarrow> d) in
           case map_of (occasions cfg) default of
             None \<Rightarrow> Inl (KeyError default)
           | Some rules \<Rightarrow> Inr (default, rules)))"

section \<open>The wardrobe filter\<close>

record wardrobe_item =
  name :: string
  category :: string

text \<open>\<^verbatim>\<open>items_by_category\<close>: an insertion-ordered dictionary from the stripped category
  to the names of its items, in wardrobe order.\<close>

fun add_to_category :: "string \<Rightarrow> string \<Rightarrow> (string \<times> string list) list \<Rightarrow> (string \<times> string list) list" where
  "add_to_category cat item [] = [(cat, [item])]"
| "add_to_category cat item ((c, items) # rest) =
     (if c = cat then (c, items @ [item]) # rest
      else (c, items) # add_to_category cat item rest)"

definition items_by_category :: "wardrobe_item list \<Rightarrow> (string \<times> string list) list" where
  "items_by_category closet =
     foldl (\<lambda>d item. add_to_category (strip (category item)) (name item) d) [] closet"

definition is_item_forbidden :: "occasion_rule \<Rightarrow> string \<Rightarrow> string \<Rightarrow> bool" where
  "is_item_forbidden rules item_name cat =
     (let forbidden = (case forbidden_categories rules of None \<Rightarrow> [] | Some fs \<Rightarrow> fs);
          item_lower = lower item_name;
          cat_lower = lower cat
      in list_ex (\<lambda>f. let f_lower = lower f in str_in f_lower item_lower \<or> str_in f_lower cat_lower)
           forbidden)"

definition is_allowed :: "string list \<Rightarrow> string \<Rightarrow> string \<Rightarrow> bool" where
  "is_allowed allowed item cat =
     list_ex (\<lambda>a. str_in (lower a) (lower item) \<or> str_in (lower a) (lower cat)) allowed"

text \<open>The body of the inner loop of \<^verbatim>\<open>get_matching_items\<close>: is the item appended?\<close>

definition item_matches :: "occasion_rule \<Rightarrow> string list \<Rightarrow> string \<Rightarrow> string \<Rightarrow> bool" where
  "item_matches rules allowed cat item =
     (if is_item_forbidden rules item cat then False
      else if is_allowed allowed item cat then True
      else if length allowed = 0 then True
      else False)"

definition allowed_for :: "occasion_rule \<Rightarrow> string \<Rightarrow> string list" where
  "allowed_for rules category_type =
     (case map_of (allowed_categories rules) category_type of None \<Rightarrow> [] | Some a \<Rightarrow> a)"

definition matching_items :: "occasion_rule \<Rightarrow> (string \<times> string list) list \<Rightarrow> string \<Rightarrow> string list" where
  "matching_items rules by_cat category_type =
     concat (map (\<lambda>(cat, items). filter (item_matches rules (allowed_for rules category_type) cat) items)
       by_cat)"

text \<open>
  \<^verbatim>\<open>random.shuffle\<close>: for \<open>i\<close> from the last index down to 1, exchange \<open>x[i]\<close> with
  \<open>x[randbelow(i + 1)]\<close>. The generator is a stream \<open>rnd\<close> of raw draws and a position in
  it; \<open>randbelow n\<close> reduces the next draw modulo \<open>n\<close>.
\<close>

definition swap :: "nat \<Rightarrow> nat \<Rightarrow> 'a list \<Rightarrow> 'a list" where
  "swap i j xs = (xs[i := xs ! j])[j := xs ! i]"

fun shuffle_loop :: "(nat \<Rightarrow> nat) \<Rightarrow> nat \<Rightarrow> nat \<Rightarrow> 'a list \<Rightarrow> 'a list \<times> nat" where
  "shuffle_loop rnd pos 0 xs = (xs, pos)"
| "shuffle_loop rnd pos (Suc i) xs =
     shuffle_loop rnd (Suc pos) i (swap (Suc i) (rnd pos mod (Suc i + 1)) xs)"

definition shuffle :: "(nat \<Rightarrow> nat) \<Rightarrow> nat \<Rightarrow> 'a list \<Rightarrow> 'a list \<times> nat" where
  "shuffle rnd pos xs = shuffle_loop rnd pos (length xs - 1) xs"

definition get_matching_items ::
  "(nat \<Rightarrow> nat) \<Rightarrow> nat \<Rightarrow> occasion_rule \<Rightarrow> (string \<times> string list) list \<Rightarrow> string \<Rightarrow> string list \<times> nat" where
  "get_matching_items rnd pos rules by_cat category_type =
     shuffle rnd pos (matching_items rules by_cat category_type)"

text \<open>The dress and saree lists: an \<^verbatim>\<open>if\<close>/\<^verbatim>\<open>elif\<close> on the lowered category.\<close>

definition dress_keywords :: "string list" where
  "dress_keywords = [''dress'', ''gown'', ''frock'', ''set'', ''suit'']"

definition is_dress_category :: "string \<Rightarrow> bool" where
  "is_dress_category cat = list_ex (\<lambda>d. str_in d (lower cat)) dress_keywords"

definition is_saree_category :: "string \<Rightarrow> bool" where
  "is_saree_category cat = (str_in ''saree'' (lower cat) \<or> str_in ''sari'' (lower cat))"

definition all_dresses :: "occasion_rule \<Rightarrow> (string \<times> string list) list \<Rightarrow> string list" where
  "all_dresses rules by_cat =
     concat (map (\<lambda>(cat, items).
       filter (\<lambda>item. \<not> is_item_forbidden rules item cat \<and> is_dress_category cat) items) by_cat)"

definition all_sarees :: "occasion_rule \<Rightarrow> (string \<times> string list) list \<Rightarrow> string list" where
  "all_sarees rules by_cat =
     concat (map (\<lambda>(cat, items).
       filter (\<lambda>item. \<not> is_item_forbidden rules item cat \<and> \<not> is_dress_category cat
                 \<and> is_saree_category cat) items) by_cat)"

text \<open>The six lists of one request, the generator threaded through the four shuffles.\<close>

record filtered_selection =
  tops :: "string list"
  bottoms :: "string list"
  shoes :: "string list"
  accessories :: "string list"
  dresses :: "string list"
  sarees :: "string list"

definition filter_wardrobe :: "(nat \<Rightarrow> nat) \<Rightarrow> occasion_rule \<Rightarrow> wardrobe_item list \<Rightarrow> filtered_selection" where
  "filter_wardrobe rnd rules closet =
     (let by_cat = items_by_category closet;
          (filtered_tops, p1) = get_matching_items rnd 0 rules by_cat ''tops'';
          (filtered_bottoms, p2) = get_matching_items rnd p1 rules by_cat ''bottoms'';
          (filtered_shoes, p3) = get_matching_items rnd p2 rules by_cat ''shoes'';
          (filtered_accessories, p4) = get_matching_items rnd p3 rules by_cat ''accessories''
      in \<lparr> tops = filtered_tops, bottoms = filtered_bottoms, shoes = filtered_shoes,
           accessories = filtered_accessories,
           dresses = all_dresses rules by_cat, sarees = all_sarees rules by_cat \<rparr>)"


section \<open>Outfit repair\<close>

subsection \<open>The two regular expressions\<close>

text \<open>
  Both patterns are a literal label (\<^verbatim>\<open>Top:\<close> or \<^verbatim>\<open>Bottom:\<close>, matched under
  \<^verbatim>\<open>re.IGNORECASE\<close>), then \<^verbatim>\<open>\s*\<close>, then \<^verbatim>\<open>.+\<close> (group 1 of the search). A pattern is
  given by its label. \<open>dot_plus\<close> is \<^verbatim>\<open>.+\<close>: at least one character other than a newline,
  as many as there are. \<open>ws_dot_plus\<close> is \<^verbatim>\<open>\s*.+\<close> with the backtracking of the greedy
  star: one more whitespace character first, the rest of the pattern here when that fails.
  Both return the text \<^verbatim>\<open>.+\<close> matched and the text after the match.
\<close>

definition newline :: char where
  "newline = CHR 0x0A"

definition backslash :: char where
  "backslash = CHR 0x5C"

definition dot_plus :: "string \<Rightarrow> (string \<times> string) option" where
  "dot_plus s =
     (case takeWhile (\<lambda>c. c \<noteq> newline) s of
        [] \<Rightarrow> None
      | g \<Rightarrow> Some (g, dropWhile (\<lambda>c. c \<noteq> newline) s))"

fun ws_dot_plus :: "string \<Rightarrow> (string \<times> string) option" where
  "ws_dot_plus [] = dot_plus []"
| "ws_dot_plus (c # cs) =
     (if is_space c
      then (case ws_dot_plus cs of Some m \<Rightarrow> Some m | None \<Rightarrow> dot_plus (c # cs))
      else dot_plus (c # cs))"

definition label_at :: "string \<Rightarrow> string \<Rightarrow> bool" where
  "label_at lbl s = (lower (take (length lbl) s) = lower lbl)"

definition match_here :: "string \<Rightarrow> string \<Rightarrow> (string \<times> string) option" where
  "match_here lbl s = (if label_at lbl s then ws_dot_plus (drop (length lbl) s) else None)"

text \<open>\<^verbatim>\<open>re.search\<close>: group 1 of the leftmost match.\<close>

fun re_search :: "string \<Rightarrow> string \<Rightarrow> string option" where
  "re_search lbl [] = None"
| "re_search lbl (c # cs) =
     (case match_here lbl (c # cs) of
        Some (g, rest) \<Rightarrow> Some g
      | None \<Rightarrow> re_search lbl cs)"

lemma dot_plus_shorter: "dot_plus s = Some (g, rest) \<Longrightarrow> length rest < length s"
proof -
  assume a: "dot_plus s = Some (g, rest)"
  then have g: "g = takeWhile (\<lambda>c. c \<noteq> newline) s" and r: "rest = dropWhile (\<lambda>c. c \<noteq> newline) s"
    and ne: "takeWhile (\<lambda>c. c \<noteq> newline) s \<noteq> []"
    by (auto simp: dot_plus_def split: list.splits)
  have "length (takeWhile (\<lambda>c. c \<noteq> newline) s) + length rest = length s"
    unfolding r by (metis length_append takeWhile_dropWhile_id)
  then show ?thesis using ne by (cases "takeWhile (\<lambda>c. c \<noteq> newline) s") auto
qed

lemma ws_dot_plus_shorter: "ws_dot_plus s = Some (g, rest) \<Longrightarrow> length rest < length s"
proof (induction s)
  case Nil
  then show ?case by (simp add: dot_plus_def)
next
  case (Cons c cs)
  show ?case
  proof (cases "is_space c \<and> ws_dot_plus cs \<noteq> None")
    case True
    then have "ws_dot_plus cs = Some (g, rest)" using Cons.prems by auto
    then show ?thesis using Cons.IH by simp
  next
    case False
    then have "dot_plus (c # cs) = Some (g, rest)"
      using Cons.prems by (auto split: if_splits option.splits)
    then show ?thesis by (rule dot_plus_shorter)
  qed
qed

lemma match_here_shorter: "match_here lbl s = Some (g, rest) \<Longrightarrow> length rest < length s"
  by (auto simp: match_here_def split: if_splits dest!: ws_dot_plus_shorter)

text \<open>
  \<^verbatim>\<open>re.sub\<close> replaces every match, left to right, searching on after each match;
  \<open>f\<close> gives the replacement for the matched text.
\<close>

function re_sub_with :: "(string \<Rightarrow> string) \<Rightarrow> string \<Rightarrow> string \<Rightarrow> string" where
  "re_sub_with f lbl [] = []"
| "re_sub_with f lbl (c # cs) =
     (case match_here lbl (c # cs) of
        Some (g, rest) \<Rightarrow>
          f (take (length (c # cs) - length rest) (c # cs)) @ re_sub_with f lbl rest
      | None \<Rightarrow> c # re_sub_with f lbl cs)"
  by pat_completeness auto
termination
  by (relation "measure (\<lambda>(f, lbl, s). length s)") (auto dest: match_here_shorter)

subsection \<open>Replacement templates\<close>

text \<open>
  \<^verbatim>\<open>re.sub\<close> reads its replacement string as a template and compiles it before it looks
  for a match: a backslash starts an escape. The patterns here have no group, so the only
  group reference that stands is \<^verbatim>\<open>\g<0>\<close>, the matched text (the number in decimal
  digits; the other spellings Python 3.11 still reads are refused as from 3.12). A
  three-digit octal escape or \<^verbatim>\<open>\0\<close> with up to two octal digits is that character, the
  escapes \<^verbatim>\<open>\a \b \f \n \r \t \v \\\<close> are theirs, a backslash before any other character
  than an ASCII letter or digit stays with that character, and everything else raises
  (\<^verbatim>\<open>re.error\<close>, or \<^verbatim>\<open>IndexError\<close> for a group name): \<open>TemplateError\<close>.
\<close>

datatype piece = Lit char | Whole_match

definition is_digit :: "char \<Rightarrow> bool" where
  "is_digit c = (let n = (of_char c :: nat) in 48 \<le> n \<and> n \<le> 57)"

definition is_octdigit :: "char \<Rightarrow> bool" where
  "is_octdigit c = (let n = (of_char c :: nat) in 48 \<le> n \<and> n \<le> 55)"

definition is_ascii_letter :: "char \<Rightarrow> bool" where
  "is_ascii_letter c = (let n = (of_char c :: nat) in (65 \<le> n \<and> n \<le> 90) \<or> (97 \<le> n \<and> n \<le> 122))"

definition digit_val :: "char \<Rightarrow> nat" where
  "digit_val c = of_char c - 48"

definition escape_char :: "char \<Rightarrow> char option" where
  "escape_char c =
     (if c = CHR ''a'' then Some (CHR 0x07)
      else if c = CHR ''b'' then Some (CHR 0x08)
      else if c = CHR ''f'' then Some (CHR 0x0C)
      else if c = CHR ''n'' then Some (CHR 0x0A)
      else if c = CHR ''r'' then Some (CHR 0x0D)
      else if c = CHR ''t'' then Some (CHR 0x09)
      else if c = CHR ''v'' then Some (CHR 0x0B)
      else if c = backslash then Some backslash
      else None)"

definition add_piece :: "piece \<Rightarrow> py_error + piece list \<Rightarrow> py_error + piece list" where
  "add_piece p r = (case r of Inl e \<Rightarrow> Inl e | Inr ps \<Rightarrow> Inr (p # ps))"

function parse_template :: "string \<Rightarrow> py_error + piece list" where
  "parse_template [] = Inr []"
| "parse_template (c # cs) =
     (if c \<noteq> backslash then add_piece (Lit c) (parse_template cs)
      else case cs of
        [] \<Rightarrow> Inl TemplateError
      | d # ds \<Rightarrow>
          if d = CHR ''g'' then
            (case ds of
               [] \<Rightarrow> Inl TemplateError
             | l # ns \<Rightarrow>
                 if l \<noteq> CHR ''<'' then Inl TemplateError
                 else (case dropWhile (\<lambda>x. x \<noteq> CHR ''>'') ns of
                         [] \<Rightarrow> Inl TemplateError
                       | gt # after \<Rightarrow>
                           (let group_name = takeWhile (\<lambda>x. x \<noteq> CHR ''>'') ns in
                            if group_name \<noteq> [] \<and> list_all (\<lambda>x. x = CHR ''0'') group_name
                            then add_piece Whole_match (parse_template after)
                            else Inl TemplateError)))
          else if d = CHR ''0'' then
            (case ds of
               [] \<Rightarrow> add_piece (Lit (CHR 0x00)) (parse_template ds)
             | o1 # ds1 \<Rightarrow>
                 if \<not> is_octdigit o1 then add_piece (Lit (CHR 0x00)) (parse_template ds)
                 else (case ds1 of
                         [] \<Rightarrow> add_piece (Lit (char_of (digit_val o1))) (parse_template ds1)
                       | o2 # ds2 \<Rightarrow>
                           if \<not> is_octdigit o2
                           then add_piece (Lit (char_of (digit_val o1))) (parse_template ds1)
                           else add_piece (Lit (char_of (8 * digit_val o1 + digit_val o2)))
                                  (parse_template ds2)))
          else if is_digit d then
            (case ds of
               d2 # d3 # ds2 \<Rightarrow>
                 if is_octdigit d \<and> is_octdigit d2 \<and> is_octdigit d3
                    \<and> 64 * digit_val d + 8 * digit_val d2 + digit_val d3 \<le> 255
                 then add_piece (Lit (char_of (64 * digit_val d + 8 * digit_val d2 + digit_val d3)))
                        (parse_template ds2)
                 else Inl TemplateError
             | _ \<Rightarrow> Inl TemplateError)
          else (case escape_char d of
                  Some e \<Rightarrow> add_piece (Lit e) (parse_template ds)
                | None \<Rightarrow>
                    if is_ascii_letter d then Inl TemplateError
                    else add_piece (Lit backslash) (add_piece (Lit d) (parse_template ds))))"
  by pat_completeness auto
termination
proof (relation "measure length")
  fix c cs d ds l ns gt after
  assume "dropWhile (\<lambda>x. x \<noteq> CHR ''>'') ns = gt # after" "cs = d # ds" "ds = l # ns"
  then have "length after < length (dropWhile (\<lambda>x. x \<noteq> CHR ''>'') ns)" by simp
  also have "\<dots> \<le> length ns" by (rule length_dropWhile_le)
  finally show "(after, c # cs) \<in> measure length"
    using \<open>cs = d # ds\<close> \<open>ds = l # ns\<close> by simp
qed auto

fun expand_template :: "piece list \<Rightarrow> string \<Rightarrow> string" where
  "expand_template [] m = []"
| "expand_template (Lit c # ps) m = c # expand_template ps m"
| "expand_template (Whole_match # ps) m = m @ expand_template ps m"

definition re_sub :: "string \<Rightarrow> string \<Rightarrow> string \<Rightarrow> py_error + string" where
  "re_sub lbl repl s =
     (case parse_template repl of
        Inl e \<Rightarrow> Inl e
      | Inr ps \<Rightarrow> Inr (re_sub_with (expand_template ps) lbl s))"

subsection \<open>\<^verbatim>\<open>fix_complete_outfit_bottom\<close>\<close>

definition complete_outfit_keywords :: "string list" where
  "complete_outfit_keywords =
     [''saree'', ''sari'', ''set'', ''lehenga'', ''anarkali'', ''sharara'',
      ''suit'', ''chudi'', ''salwar'', ''dress'', ''gown'', ''frock'', ''maxi'']"

definition is_complete_outfit :: "string \<Rightarrow> bool" where
  "is_complete_outfit item_lower =
     list_ex (\<lambda>keyword. str_in keyword item_lower) complete_outfit_keywords"

text \<open>\<^verbatim>\<open>m.group(1).strip() if m else ""\<close> for the search of a label.\<close>

definition extract_item :: "string \<Rightarrow> string \<Rightarrow> string" where
  "extract_item lbl suggestion =
     (case re_search lbl suggestion of Some g \<Rightarrow> strip g | None \<Rightarrow> [])"

definition fix_complete_outfit_bottom :: "string \<Rightarrow> py_error + string" where
  "fix_complete_outfit_bottom suggestion =
     (let top_item = extract_item ''Top:'' suggestion;
          bottom_item = extract_item ''Bottom:'' suggestion;
          top_lower = lower top_item;
          bottom_lower = lower bottom_item;
          bottom_is_complete_outfit = is_complete_outfit bottom_lower
      in
      if bottom_is_complete_outfit
         \<and> (top_lower = ''none needed'' \<or> top_lower = ''none'' \<or> top_item = [])
      then
        (case re_sub ''Top:'' (''Top: '' @ bottom_item) suggestion of
           Inl e \<Rightarrow> Inl e
         | Inr s1 \<Rightarrow> re_sub ''Bottom:'' ''Bottom: None needed'' s1)
      else
        (case (if bottom_is_complete_outfit
               then re_sub ''Bottom:'' ''Bottom: None needed'' suggestion
               else Inr suggestion) of
           Inl e \<Rightarrow> Inl e
         | Inr s2 \<Rightarrow>
             (case (if is_complete_outfit top_lower
                    then re_sub ''Bottom:'' ''Bottom: None needed'' s2
                    else Inr s2) of
                Inl e \<Rightarrow> Inl e
              | Inr s3 \<Rightarrow>
                  (if top_lower = ''none needed'' \<or> top_lower = ''none''
                   then re_sub ''Top:'' ''Top: (Please select a top item)'' s3
                   else Inr s3))))"

section \<open>Notions the properties are stated with\<close>

subsection \<open>The wardrobe filter\<close>

text \<open>The grouped wardrobe as the list of its (category key, name) entries, in the order in which
  \<^verbatim>\<open>get_matching_items\<close> walks it.\<close>

definition entries :: "(string \<times> string list) list \<Rightarrow> (string \<times> string) list" where
  "entries d = concat (map (\<lambda>(c, items). map (Pair c) items) d)"

text \<open>The test that \<^verbatim>\<open>get_matching_items\<close> applies to one item for one slot: the item is
  looked at through its name and its category key, which is the category with the surrounding
  whitespace removed.\<close>

definition item_selected :: "occasion_rule \<Rightarrow> string \<Rightarrow> wardrobe_item \<Rightarrow> bool" where
  "item_selected rules category_type i =
     item_matches rules (allowed_for rules category_type) (strip (category i)) (name i)"

text \<open>The four slot buckets of a selection, by slot name.\<close>

definition slot_names :: "string list" where
  "slot_names = [''tops'', ''bottoms'', ''shoes'', ''accessories'']"

definition bucket :: "filtered_selection \<Rightarrow> string \<Rightarrow> string list" where
  "bucket sel category_type =
     (if category_type = ''tops'' then tops sel
      else if category_type = ''bottoms'' then bottoms sel
      else if category_type = ''shoes'' then shoes sel
      else accessories sel)"

subsection \<open>Label matches of a text\<close>

text \<open>Substitution by a replacement that does not depend on the match.\<close>

abbreviation substitute :: "string \<Rightarrow> string \<Rightarrow> string \<Rightarrow> string" where
  "substitute R lbl s \<equiv> re_sub_with (\<lambda>m. R) lbl s"

text \<open>The label that stands at the head of a text, if one does.\<close>

definition label_here :: "string \<Rightarrow> string option" where
  "label_here s =
     (if label_at ''Top:'' s then Some ''Top:''
      else if label_at ''Bottom:'' s then Some ''Bottom:''
      else None)"

fun any_label :: "string \<Rightarrow> bool" where
  "any_label [] = False"
| "any_label (c # cs) = (label_here (c # cs) \<noteq> None \<or> any_label cs)"

text \<open>A text is segmented by its labels when every place where a label stands starts a match of the
  label's expression and no match holds a further label behind its first character. The segments are
  the pieces of text before, between and after the matches.\<close>

fun cons_first :: "char \<Rightarrow> string list \<Rightarrow> string list" where
  "cons_first c [] = [[c]]"
| "cons_first c (x # xs) = (c # x) # xs"

function outside_matches :: "string \<Rightarrow> string list option" where
  "outside_matches [] = Some [[]]"
| "outside_matches (c # cs) =
     (case label_here (c # cs) of
        None \<Rightarrow> map_option (cons_first c) (outside_matches cs)
      | Some lbl \<Rightarrow>
          (case match_here lbl (c # cs) of
             None \<Rightarrow> None
           | Some (g, rest) \<Rightarrow>
               if any_label (tl (take (length (c # cs) - length rest) (c # cs))) then None
               else map_option (Cons []) (outside_matches rest)))"
  by pat_completeness auto
termination
  by (relation "measure length") (auto dest: match_here_shorter)

section \<open>The wardrobe filter keeps the items and filters them\<close>

subsection \<open>Shuffling and grouping keep the items\<close>

lemma length_swap [simp]: "length (swap i j xs) = length xs"
  by (simp add: swap_def)

lemma mset_swap_idx: "i < length xs \<Longrightarrow> j < length xs \<Longrightarrow> mset (swap i j xs) = mset xs"
  unfolding swap_def by (simp add: mset_swap)

lemma mset_shuffle_loop: "i < length xs \<or> i = 0 \<Longrightarrow> mset (fst (shuffle_loop rnd pos i xs)) = mset xs"
proof (induction i arbitrary: pos xs)
  case 0
  then show ?case by simp
next
  case (Suc i)
  then have len: "Suc i < length xs" by simp
  have "rnd pos mod (Suc i + 1) < Suc i + 1" by simp
  then have j: "rnd pos mod (Suc i + 1) < length xs"
    using len by linarith
  have "mset (fst (shuffle_loop rnd (Suc pos) i (swap (Suc i) (rnd pos mod (Suc i + 1)) xs)))
        = mset (swap (Suc i) (rnd pos mod (Suc i + 1)) xs)"
    using len by (intro Suc.IH) simp
  then show ?case using len j by (simp add: mset_swap_idx)
qed

lemma mset_shuffle: "mset (fst (shuffle rnd pos xs)) = mset xs"
  unfolding shuffle_def by (rule mset_shuffle_loop) (cases xs; simp)

lemma entries_add: "mset (entries (add_to_category c i d)) = add_mset (c, i) (mset (entries d))"
  by (induction d) (auto simp: entries_def)

lemma entries_foldl:
  "mset (entries (foldl (\<lambda>d item. add_to_category (strip (category item)) (name item) d) d closet))
   = mset (entries d) + mset (map (\<lambda>i. (strip (category i), name i)) closet)"
  by (induction closet arbitrary: d) (simp_all add: entries_add)

lemma entries_items_by_category:
  "mset (entries (items_by_category closet)) = mset (map (\<lambda>i. (strip (category i), name i)) closet)"
  unfolding items_by_category_def entries_foldl by (simp add: entries_def)

lemma concat_filter_entries:
  "concat (map (\<lambda>(cat, items). filter (P cat) items) d) = map snd (filter (\<lambda>(c, i). P c i) (entries d))"
  by (induction d) (auto simp: entries_def filter_map comp_def)

lemma mset_grouped_filter:
  "mset (concat (map (\<lambda>(cat, items). filter (P cat) items) (items_by_category closet)))
   = mset (map name (filter (\<lambda>i. P (strip (category i)) (name i)) closet))"
proof -
  have "mset (concat (map (\<lambda>(cat, items). filter (P cat) items) (items_by_category closet)))
        = image_mset snd (filter_mset (\<lambda>(c, i). P c i) (mset (entries (items_by_category closet))))"
    by (simp add: concat_filter_entries)
  also have "\<dots> = image_mset snd (filter_mset (\<lambda>(c, i). P c i)
                      (mset (map (\<lambda>i. (strip (category i), name i)) closet)))"
    by (simp only: entries_items_by_category)
  also have "\<dots> = mset (map name (filter (\<lambda>i. P (strip (category i)) (name i)) closet))"
    by (induction closet) simp_all
  finally show ?thesis .
qed

lemma mset_get_matching_items:
  "mset (fst (get_matching_items rnd pos rules (items_by_category closet) slot))
   = mset (map name (filter (\<lambda>i. item_matches rules (allowed_for rules slot) (strip (category i)) (name i)) closet))"
  by (simp add: get_matching_items_def mset_shuffle matching_items_def mset_grouped_filter)

subsection \<open>Substring tests and surrounding whitespace\<close>

lemma str_in_iff: "str_in k s \<longleftrightarrow> (\<exists>p q. s = p @ k @ q)"
proof (induction s)
  case Nil
  then show ?case by auto
next
  case (Cons c cs)
  show ?case
  proof
    assume "str_in k (c # cs)"
    then consider "take (length k) (c # cs) = k" | "str_in k cs" by auto
    then show "\<exists>p q. c # cs = p @ k @ q"
    proof cases
      case 1
      then have "c # cs = [] @ k @ drop (length k) (c # cs)"
        by (metis append_Nil append_take_drop_id)
      then show ?thesis by blast
    next
      case 2
      then obtain p q where "cs = p @ k @ q" using Cons.IH by auto
      then have "c # cs = (c # p) @ k @ q" by simp
      then show ?thesis by blast
    qed
  next
    assume "\<exists>p q. c # cs = p @ k @ q"
    then obtain p q where pq: "c # cs = p @ k @ q" by auto
    show "str_in k (c # cs)"
    proof (cases p)
      case Nil
      then have "take (length k) (c # cs) = k" using pq by simp
      then show ?thesis by simp
    next
      case (Cons d p')
      then have "cs = p' @ k @ q" using pq by simp
      then have "str_in k cs" using Cons.IH by auto
      then show ?thesis by simp
    qed
  qed
qed

lemma lower_space: "is_space c \<Longrightarrow> lower_char c = c"
  by (auto simp: is_space_def lower_char_def Let_def)

lemma str_in_lower_dropWhile:
  assumes "k \<noteq> []" "\<not> is_space (hd k)"
  shows "str_in k (lower (dropWhile is_space s)) = str_in k (lower s)"
proof (induction s)
  case Nil
  then show ?case by simp
next
  case (Cons c cs)
  show ?case
  proof (cases "is_space c")
    case True
    have "take (length k) (lower (c # cs)) \<noteq> k"
    proof
      assume "take (length k) (lower (c # cs)) = k"
      then have "hd k = lower_char c" using assms(1) by (cases k) (auto simp: lower_def)
      then show False using True assms(2) by (simp add: lower_space)
    qed
    then show ?thesis using True Cons by (simp add: lower_def)
  next
    case False
    then show ?thesis by simp
  qed
qed

lemma str_in_rev: "str_in (rev k) (rev s) = str_in k s"
proof -
  have "(\<exists>p q. rev s = p @ rev k @ q) \<longleftrightarrow> (\<exists>p q. s = p @ k @ q)"
  proof
    assume "\<exists>p q. rev s = p @ rev k @ q"
    then obtain p q where "rev s = p @ rev k @ q" by auto
    then have "s = rev q @ k @ rev p" by (metis append.assoc rev_append rev_rev_ident)
    then show "\<exists>p q. s = p @ k @ q" by blast
  next
    assume "\<exists>p q. s = p @ k @ q"
    then obtain p q where "s = p @ k @ q" by auto
    then have "rev s = rev q @ rev k @ rev p" by simp
    then show "\<exists>p q. rev s = p @ rev k @ q" by blast
  qed
  then show ?thesis by (simp add: str_in_iff)
qed

lemma lower_rev: "lower (rev s) = rev (lower s)"
  by (simp add: lower_def rev_map)

lemma str_in_lower_strip:
  assumes "k \<noteq> []" "\<not> is_space (hd k)" "\<not> is_space (last k)"
  shows "str_in k (lower (strip s)) = str_in k (lower s)"
proof -
  have rk: "rev k \<noteq> []" "\<not> is_space (hd (rev k))"
    using assms by (simp_all add: hd_rev)
  have "str_in k (lower (strip s)) = str_in (rev k) (lower (dropWhile is_space (rev (dropWhile is_space s))))"
    unfolding strip_def lower_rev using str_in_rev[of "rev k"] by simp
  also have "\<dots> = str_in (rev k) (lower (rev (dropWhile is_space s)))"
    using rk by (rule str_in_lower_dropWhile)
  also have "\<dots> = str_in k (lower (dropWhile is_space s))"
    by (simp add: lower_rev str_in_rev)
  also have "\<dots> = str_in k (lower s)"
    using assms(1,2) by (rule str_in_lower_dropWhile)
  finally show ?thesis .
qed

lemma is_dress_category_strip: "is_dress_category (strip c) = is_dress_category c"
  by (simp add: is_dress_category_def dress_keywords_def str_in_lower_strip is_space_def)

lemma is_saree_category_strip: "is_saree_category (strip c) = is_saree_category c"
  by (simp add: is_saree_category_def str_in_lower_strip is_space_def)

subsection \<open>The contents of the buckets\<close>

lemma mset_bucket:
  "mset (fst (get_matching_items rnd pos rules (items_by_category closet) slot))
   = mset (map name (filter (item_selected rules slot) closet))"
  unfolding item_selected_def by (rule mset_get_matching_items)

lemma mset_tops:
  "mset (tops (filter_wardrobe rnd rules closet)) = mset (map name (filter (item_selected rules ''tops'') closet))"
  by (simp add: filter_wardrobe_def Let_def case_prod_beta mset_bucket)

lemma mset_bottoms:
  "mset (bottoms (filter_wardrobe rnd rules closet)) = mset (map name (filter (item_selected rules ''bottoms'') closet))"
  by (simp add: filter_wardrobe_def Let_def case_prod_beta mset_bucket)

lemma mset_shoes:
  "mset (shoes (filter_wardrobe rnd rules closet)) = mset (map name (filter (item_selected rules ''shoes'') closet))"
  by (simp add: filter_wardrobe_def Let_def case_prod_beta mset_bucket)

lemma mset_accessories:
  "mset (accessories (filter_wardrobe rnd rules closet)) = mset (map name (filter (item_selected rules ''accessories'') closet))"
  by (simp add: filter_wardrobe_def Let_def case_prod_beta mset_bucket)

lemma mset_dresses:
  "mset (dresses (filter_wardrobe rnd rules closet))
   = mset (map name (filter (\<lambda>i. \<not> is_item_forbidden rules (name i) (strip (category i))
                                \<and> is_dress_category (category i)) closet))"
  by (simp add: filter_wardrobe_def Let_def case_prod_beta all_dresses_def
        mset_grouped_filter[where P = "\<lambda>cat item. \<not> is_item_forbidden rules item cat \<and> is_dress_category cat"]
        is_dress_category_strip)

lemma mset_sarees:
  "mset (sarees (filter_wardrobe rnd rules closet))
   = mset (map name (filter (\<lambda>i. \<not> is_item_forbidden rules (name i) (strip (category i))
                                \<and> \<not> is_dress_category (category i) \<and> is_saree_category (category i)) closet))"
  by (simp add: filter_wardrobe_def Let_def case_prod_beta all_sarees_def
        mset_grouped_filter[where P = "\<lambda>cat item. \<not> is_item_forbidden rules item cat
              \<and> \<not> is_dress_category cat \<and> is_saree_category cat"]
        is_dress_category_strip is_saree_category_strip)

lemma selected_not_forbidden:
  "item_selected rules slot i \<Longrightarrow> \<not> is_item_forbidden rules (name i) (strip (category i))"
  by (auto simp: item_selected_def item_matches_def split: if_splits)

lemma selected_empty_allowed:
  "allowed_for rules slot = [] \<Longrightarrow>
   item_selected rules slot i = (\<not> is_item_forbidden rules (name i) (strip (category i)))"
  by (simp add: item_selected_def item_matches_def is_allowed_def)

lemma subseteq_add_mset_right: "A \<subseteq># B \<Longrightarrow> A \<subseteq># add_mset x B"
  by (meson multi_psub_of_add_self subset_mset.le_less subset_mset.le_less_trans)

lemma mset_filter_mono_names:
  "(\<And>i. P i \<Longrightarrow> Q i) \<Longrightarrow> mset (map name (filter P xs)) \<subseteq># mset (map name (filter Q xs))"
proof (induction xs)
  case Nil
  then show ?case by simp
next
  case (Cons x xs)
  then have IH: "mset (map name (filter P xs)) \<subseteq># mset (map name (filter Q xs))" by simp
  show ?case
  proof (cases "P x")
    case True
    then have "Q x" using Cons.prems by simp
    then show ?thesis using True IH by simp
  next
    case False
    then show ?thesis using IH by (cases "Q x") (simp_all add: subseteq_add_mset_right)
  qed
qed

lemma mset_bucket_sel:
  "slot \<in> set slot_names \<Longrightarrow>
   mset (bucket (filter_wardrobe rnd rules closet) slot) = mset (map name (filter (item_selected rules slot) closet))"
  by (auto simp: slot_names_def bucket_def mset_tops mset_bottoms mset_shoes mset_accessories)

lemma set_bucket_sel:
  assumes "slot \<in> set slot_names"
  shows "set (bucket (filter_wardrobe rnd rules closet) slot) = name ` {i \<in> set closet. item_selected rules slot i}"
proof -
  have "set (bucket (filter_wardrobe rnd rules closet) slot)
        = set_mset (mset (bucket (filter_wardrobe rnd rules closet) slot))" by simp
  also have "\<dots> = set_mset (mset (map name (filter (item_selected rules slot) closet)))"
    using assms by (simp only: mset_bucket_sel)
  also have "\<dots> = name ` {i \<in> set closet. item_selected rules slot i}" by auto
  finally show ?thesis .
qed


section \<open>The regular expressions\<close>

subsection \<open>Matches and what they leave\<close>

lemma of_char_lower_char:
  "(of_char (lower_char x) :: nat) =
     (if (65 \<le> (of_char x :: nat) \<and> (of_char x :: nat) \<le> 90)
         \<or> (192 \<le> (of_char x :: nat) \<and> (of_char x :: nat) \<le> 222 \<and> (of_char x :: nat) \<noteq> 215)
      then of_char x + 32 else of_char x)"
  by (auto simp: lower_char_def Let_def)

lemma lower_char_newline: "lower_char x = newline \<longleftrightarrow> x = newline"
proof
  assume a: "lower_char x = newline"
  then have "(of_char (lower_char x) :: nat) = 10" by (simp add: newline_def)
  then have "(of_char x :: nat) = 10" unfolding of_char_lower_char by (auto split: if_splits)
  then have "(of_char x :: nat) = of_char newline" by (simp add: newline_def)
  then show "x = newline" by (simp only: of_char_eq_iff)
next
  assume "x = newline"
  then show "lower_char x = newline" by (simp add: lower_char_def newline_def)
qed

lemma is_space_newline [simp]: "is_space newline"
  by (simp add: is_space_def newline_def)

lemma dot_plus_None: "dot_plus z = None \<longleftrightarrow> (z = [] \<or> hd z = newline)"
  by (cases z) (auto simp: dot_plus_def split: list.splits)

lemma ws_dot_plus_None: "ws_dot_plus z = None \<longleftrightarrow> (\<forall>x\<in>set z. x = newline)"
proof (induction z)
  case Nil
  then show ?case by (simp add: dot_plus_None)
next
  case (Cons c cs)
  show ?case
  proof (cases "is_space c")
    case True
    then show ?thesis using Cons by (auto simp: dot_plus_None split: option.splits)
  next
    case False
    then have "c \<noteq> newline" by auto
    then show ?thesis using False by (auto simp: dot_plus_None)
  qed
qed

lemma dot_plus_rest: "dot_plus z = Some (g, rest) \<Longrightarrow> rest = [] \<or> hd rest = newline"
proof -
  assume "dot_plus z = Some (g, rest)"
  then have r: "rest = dropWhile (\<lambda>c. c \<noteq> newline) z"
    by (auto simp: dot_plus_def split: list.splits)
  show ?thesis
  proof (cases rest)
    case Nil
    then show ?thesis by simp
  next
    case (Cons a as)
    then have "dropWhile (\<lambda>c. c \<noteq> newline) z \<noteq> []" using r by simp
    then have "\<not> (hd (dropWhile (\<lambda>c. c \<noteq> newline) z) \<noteq> newline)"
      by (rule hd_dropWhile)
    then show ?thesis using r by simp
  qed
qed

lemma ws_dot_plus_rest: "ws_dot_plus z = Some (g, rest) \<Longrightarrow> rest = [] \<or> hd rest = newline"
proof (induction z)
  case Nil
  then show ?case by (simp add: dot_plus_def)
next
  case (Cons c cs)
  show ?case
  proof (cases "is_space c \<and> ws_dot_plus cs \<noteq> None")
    case True
    then have "ws_dot_plus cs = Some (g, rest)" using Cons.prems by auto
    then show ?thesis using Cons.IH by simp
  next
    case False
    then have "dot_plus (c # cs) = Some (g, rest)"
      using Cons.prems by (auto split: if_splits option.splits)
    then show ?thesis by (rule dot_plus_rest)
  qed
qed

lemma match_here_rest: "match_here lbl s = Some (g, rest) \<Longrightarrow> rest = [] \<or> hd rest = newline"
  by (auto simp: match_here_def split: if_splits dest: ws_dot_plus_rest)

lemma takeWhile_value:
  "newline \<notin> set v \<Longrightarrow> X = [] \<or> hd X = newline \<Longrightarrow> takeWhile (\<lambda>c. c \<noteq> newline) (v @ X) = v"
proof (induction v)
  case Nil
  then show ?case by (cases X) simp_all
next
  case (Cons a v)
  then show ?case by auto
qed

lemma dropWhile_value:
  "newline \<notin> set v \<Longrightarrow> X = [] \<or> hd X = newline \<Longrightarrow> dropWhile (\<lambda>c. c \<noteq> newline) (v @ X) = X"
proof (induction v)
  case Nil
  then show ?case by (cases X) simp_all
next
  case (Cons a v)
  then show ?case by auto
qed

lemma dot_plus_value:
  "v \<noteq> [] \<Longrightarrow> newline \<notin> set v \<Longrightarrow> X = [] \<or> hd X = newline \<Longrightarrow> dot_plus (v @ X) = Some (v, X)"
  by (cases v) (auto simp: dot_plus_def takeWhile_value dropWhile_value)

subsection \<open>Searching and substituting step by step\<close>

lemma sub_match:
  "match_here lbl (c # cs) = Some (g, rest) \<Longrightarrow>
   re_sub_with f lbl (c # cs) = f (take (length (c # cs) - length rest) (c # cs)) @ re_sub_with f lbl rest"
  by simp

lemma sub_nomatch:
  "match_here lbl (c # cs) = None \<Longrightarrow> re_sub_with f lbl (c # cs) = c # re_sub_with f lbl cs"
  by simp

lemma search_match: "match_here lbl (c # cs) = Some (g, rest) \<Longrightarrow> re_search lbl (c # cs) = Some g"
  by simp

lemma search_nomatch: "match_here lbl (c # cs) = None \<Longrightarrow> re_search lbl (c # cs) = re_search lbl cs"
  by simp

declare re_sub_with.simps(2) [simp del]

declare re_search.simps(2) [simp del]

lemma lower_append [simp]: "lower (a @ b) = lower a @ lower b"
  by (simp add: lower_def)

lemma lower_Cons [simp]: "lower (c # cs) = lower_char c # lower cs"
  by (simp add: lower_def)

lemma lower_Nil [simp]: "lower [] = []"
  by (simp add: lower_def)

lemma length_lower [simp]: "length (lower s) = length s"
  by (simp add: lower_def)

lemma lower_take: "lower (take k s) = take k (lower s)"
  by (simp add: lower_def take_map)

lemma newline_lower: "newline \<in> set (lower s) \<longleftrightarrow> newline \<in> set s"
  by (induction s) (auto simp: lower_char_newline eq_commute[of newline])

lemma label_at_length: "label_at lbl s \<Longrightarrow> length lbl \<le> length s"
proof -
  assume "label_at lbl s"
  then have "length (lower (take (length lbl) s)) = length (lower lbl)"
    by (simp add: label_at_def)
  then show ?thesis by simp
qed

lemma label_at_append: "length lbl \<le> length a \<Longrightarrow> label_at lbl (a @ z) = label_at lbl a"
  by (simp add: label_at_def)

lemma label_at_no_newline:
  "label_at lbl s \<Longrightarrow> newline \<notin> set (lower lbl) \<Longrightarrow> newline \<notin> set (take (length lbl) s)"
  by (metis label_at_def newline_lower)

lemma label_at_newline:
  "lbl \<noteq> [] \<Longrightarrow> newline \<notin> set (lower lbl) \<Longrightarrow> \<not> label_at lbl (newline # r)"
proof
  assume a: "lbl \<noteq> []" "newline \<notin> set (lower lbl)" "label_at lbl (newline # r)"
  then have "newline \<notin> set (take (length lbl) (newline # r))" by (intro label_at_no_newline)
  then show False using a(1) by (cases lbl) simp_all
qed

lemma sub_newline:
  "lbl \<noteq> [] \<Longrightarrow> newline \<notin> set (lower lbl) \<Longrightarrow> re_sub_with f lbl (newline # r) = newline # re_sub_with f lbl r"
  by (simp add: sub_nomatch match_here_def label_at_newline)

lemma search_newline:
  "lbl \<noteq> [] \<Longrightarrow> newline \<notin> set (lower lbl) \<Longrightarrow> re_search lbl (newline # r) = re_search lbl r"
  by (simp add: search_nomatch match_here_def label_at_newline)

lemma sub_starts_newline:
  assumes "lbl \<noteq> []" "newline \<notin> set (lower lbl)" "rest = [] \<or> hd rest = newline"
  shows "re_sub_with f lbl rest = [] \<or> hd (re_sub_with f lbl rest) = newline"
proof (cases rest)
  case Nil
  then show ?thesis by simp
next
  case (Cons a as)
  then have "rest = newline # as" using assms(3) by simp
  then show ?thesis using assms(1,2) by (simp add: sub_newline)
qed

lemma label_at_short:
  assumes "\<forall>x\<in>set z. x = newline" "length a < length lbl" "newline \<notin> set (lower lbl)"
  shows "\<not> label_at lbl (a @ z)"
proof
  assume l: "label_at lbl (a @ z)"
  then have len: "length lbl \<le> length (a @ z)" by (rule label_at_length)
  have nn: "newline \<notin> set (take (length lbl) (a @ z))"
    using l assms(3) by (rule label_at_no_newline)
  from len assms(2) obtain x zs where z: "z = x # zs" by (cases z) auto
  then have "x = newline" using assms(1) by simp
  moreover have "x \<in> set (take (length lbl) (a @ z))"
    using z assms(2) by (simp add: take_Cons')
  ultimately show False using nn by simp
qed

lemma no_match_short:
  assumes "\<forall>x\<in>set z. x = newline" "newline \<notin> set (lower lbl)"
  shows "length a < length lbl \<Longrightarrow> re_sub_with f lbl (a @ z) = a @ z \<and> re_search lbl (a @ z) = None"
proof (induction a)
  case Nil
  have "re_sub_with f lbl z = z \<and> re_search lbl z = None" using assms(1)
  proof (induction z)
    case Nil
    then show ?case by simp
  next
    case (Cons x xs)
    have "\<not> label_at lbl ([] @ (x # xs))"
      using Cons.prems Nil assms(2) by (intro label_at_short) auto
    then have "match_here lbl (x # xs) = None" by (simp add: match_here_def)
    then show ?case using Cons by (simp add: sub_nomatch search_nomatch)
  qed
  then show ?case by simp
next
  case (Cons x a)
  have "\<not> label_at lbl ((x # a) @ z)"
    using assms Cons.prems by (intro label_at_short) auto
  then have "match_here lbl (x # a @ z) = None" by (simp add: match_here_def)
  then show ?case using Cons by (simp add: sub_nomatch search_nomatch)
qed

lemma lower_take_sub:
  assumes R: "label_at lbl R"
  shows "k \<le> length lbl \<Longrightarrow> lower (take k (substitute R lbl s)) = lower (take k s)"
proof (induction s arbitrary: k rule: length_induct)
  case (1 s)
  show ?case
  proof (cases s)
    case Nil
    then show ?thesis by simp
  next
    case (Cons c cs)
    show ?thesis
    proof (cases "match_here lbl (c # cs)")
      case None
      have "lower (take (k - 1) (substitute R lbl cs)) = lower (take (k - 1) cs)"
        using 1 Cons by simp
      then show ?thesis using None Cons by (cases k) (simp_all add: sub_nomatch)
    next
      case (Some m)
      then obtain g rest where m: "match_here lbl (c # cs) = Some (g, rest)" by (cases m) auto
      then have l: "label_at lbl s" using Cons by (auto simp: match_here_def split: if_splits)
      have lenR: "length lbl \<le> length R" using R by (rule label_at_length)
      have "lower (take k (substitute R lbl s)) = lower (take k R)"
        using m Cons lenR 1(2) by (simp add: sub_match)
      also have "\<dots> = take k (lower (take (length lbl) R))"
        using 1(2) by (simp add: lower_take min_absorb2)
      also have "\<dots> = take k (lower (take (length lbl) s))"
        using R l by (simp add: label_at_def)
      also have "\<dots> = lower (take k s)"
        using 1(2) by (simp add: lower_take min_absorb2)
      finally show ?thesis .
    qed
  qed
qed

lemma label_at_Cons_sub:
  assumes R: "label_at lbl R"
  shows "label_at lbl (c # substitute R lbl cs) = label_at lbl (c # cs)"
proof (cases lbl)
  case Nil
  then show ?thesis by (simp add: label_at_def)
next
  case (Cons a as)
  have "lower (take (length as) (substitute R lbl cs)) = lower (take (length as) cs)"
    using R by (rule lower_take_sub) (simp add: Cons)
  then show ?thesis by (simp add: label_at_def Cons)
qed

subsection \<open>A substitution that starts with its label\<close>

lemma nomatch_Cons_sub:
  assumes lbl: "lbl \<noteq> []" "newline \<notin> set (lower lbl)" and R: "label_at lbl R"
    and nm: "match_here lbl (c # cs) = None"
  shows "match_here lbl (c # substitute R lbl cs) = None"
proof (cases "label_at lbl (c # cs)")
  case False
  then have "\<not> label_at lbl (c # substitute R lbl cs)" using R by (simp add: label_at_Cons_sub)
  then show ?thesis by (simp add: match_here_def)
next
  case True
  define a where "a = take (length lbl) (c # cs)"
  define z where "z = drop (length lbl) (c # cs)"
  have az: "c # cs = a @ z" by (simp add: a_def z_def)
  have "ws_dot_plus z = None" using nm True by (simp add: match_here_def z_def)
  then have z: "\<forall>x\<in>set z. x = newline" by (simp add: ws_dot_plus_None)
  have la: "length a = length lbl" using True label_at_length[of lbl "c # cs"] by (simp add: a_def)
  then obtain a' where a: "a = c # a'" using az lbl(1) by (cases a) auto
  then have cs: "cs = a' @ z" using az by simp
  have "length a' < length lbl" using la a by simp
  then have "substitute R lbl (a' @ z) = a' @ z" using no_match_short[OF z lbl(2)] by blast
  then show ?thesis using nm cs by simp
qed

lemma search_after_sub:
  assumes lbl: "lbl \<noteq> []" "newline \<notin> set (lower lbl)"
    and R: "\<And>X. X = [] \<or> hd X = newline \<Longrightarrow> match_here lbl (R @ X) = Some (v, X)"
  shows "re_search lbl (substitute R lbl s) = (case re_search lbl s of None \<Rightarrow> None | Some g \<Rightarrow> Some v)"
proof (induction s rule: length_induct)
  case (1 s)
  have RR: "match_here lbl (R @ []) = Some (v, [])" by (rule R) simp
  then have lR: "label_at lbl R" by (auto simp: match_here_def split: if_splits)
  then have "R \<noteq> []" using lbl(1) label_at_length[of lbl R] by auto
  then obtain r R' where Rc: "R = r # R'" by (cases R) auto
  show ?case
  proof (cases s)
    case Nil
    then show ?thesis by simp
  next
    case (Cons c cs)
    show ?thesis
    proof (cases "match_here lbl (c # cs)")
      case None
      have "match_here lbl (c # substitute R lbl cs) = None"
        using lbl lR None by (rule nomatch_Cons_sub)
      then have "re_search lbl (substitute R lbl s) = re_search lbl (substitute R lbl cs)"
        using None Cons by (simp add: sub_nomatch search_nomatch)
      also have "\<dots> = (case re_search lbl cs of None \<Rightarrow> None | Some g \<Rightarrow> Some v)"
        using 1 Cons by simp
      finally show ?thesis using None Cons by (simp add: search_nomatch)
    next
      case (Some m)
      then obtain g rest where m: "match_here lbl (c # cs) = Some (g, rest)" by (cases m) auto
      have "rest = [] \<or> hd rest = newline" using m by (rule match_here_rest)
      then have X: "substitute R lbl rest = [] \<or> hd (substitute R lbl rest) = newline"
        using lbl by (intro sub_starts_newline)
      have "match_here lbl (r # R' @ substitute R lbl rest) = Some (v, substitute R lbl rest)"
        using R[OF X] Rc by simp
      then have "re_search lbl (r # R' @ substitute R lbl rest) = Some v" by (rule search_match)
      then show ?thesis using m Cons Rc by (simp add: sub_match search_match)
    qed
  qed
qed

lemma sub_idem:
  assumes lbl: "lbl \<noteq> []" "newline \<notin> set (lower lbl)"
    and R: "\<And>X. X = [] \<or> hd X = newline \<Longrightarrow> match_here lbl (R @ X) = Some (v, X)"
  shows "substitute R lbl (substitute R lbl s) = substitute R lbl s"
proof (induction s rule: length_induct)
  case (1 s)
  have RR: "match_here lbl (R @ []) = Some (v, [])" by (rule R) simp
  then have lR: "label_at lbl R" by (auto simp: match_here_def split: if_splits)
  then have "R \<noteq> []" using lbl(1) label_at_length[of lbl R] by auto
  then obtain r R' where Rc: "R = r # R'" by (cases R) auto
  show ?case
  proof (cases s)
    case Nil
    then show ?thesis by simp
  next
    case (Cons c cs)
    show ?thesis
    proof (cases "match_here lbl (c # cs)")
      case None
      have "match_here lbl (c # substitute R lbl cs) = None"
        using lbl lR None by (rule nomatch_Cons_sub)
      then have "substitute R lbl (c # substitute R lbl cs) = c # substitute R lbl (substitute R lbl cs)"
        by (rule sub_nomatch)
      also have "\<dots> = c # substitute R lbl cs" using 1 Cons by simp
      finally show ?thesis using None Cons by (simp add: sub_nomatch)
    next
      case (Some m)
      then obtain g rest where m: "match_here lbl (c # cs) = Some (g, rest)" by (cases m) auto
      have len: "length rest < length s" using m Cons match_here_shorter by fastforce
      have "rest = [] \<or> hd rest = newline" using m by (rule match_here_rest)
      then have X: "substitute R lbl rest = [] \<or> hd (substitute R lbl rest) = newline"
        using lbl by (intro sub_starts_newline)
      have "match_here lbl (r # R' @ substitute R lbl rest) = Some (v, substitute R lbl rest)"
        using R[OF X] Rc by simp
      then have "substitute R lbl (r # R' @ substitute R lbl rest) = R @ substitute R lbl (substitute R lbl rest)"
        by (simp add: sub_match)
      also have "\<dots> = R @ substitute R lbl rest" using 1 len by simp
      finally show ?thesis using m Cons Rc by (simp add: sub_match)
    qed
  qed
qed

lemma match_here_label_value:
  assumes "label_at lbl L" "length L = length lbl" "v \<noteq> []" "\<not> is_space (hd v)" "newline \<notin> set v"
    and "X = [] \<or> hd X = newline"
  shows "match_here lbl (L @ CHR '' '' # v @ X) = Some (v, X)"
proof -
  have sp: "is_space (CHR '' '')" by (simp add: is_space_def)
  obtain a v' where v: "v = a # v'" using assms(3) by (cases v) auto
  have "dot_plus (v @ X) = Some (v, X)" using assms(3,5,6) by (rule dot_plus_value)
  then have "ws_dot_plus (v @ X) = Some (v, X)" using v assms(4) by simp
  then have "ws_dot_plus (CHR '' '' # v @ X) = Some (v, X)" using sp by simp
  moreover have "label_at lbl (L @ CHR '' '' # v @ X)"
    using assms(1,2) by (simp add: label_at_append)
  ultimately show ?thesis using assms(2) by (simp add: match_here_def)
qed

lemma parse_template_literal: "backslash \<notin> set r \<Longrightarrow> parse_template r = Inr (map Lit r)"
  by (induction r) (auto simp: add_piece_def)

lemma expand_template_literal [simp]: "expand_template (map Lit r) m = r"
  by (induction r) auto

lemma expand_template_literal_fun: "expand_template (map Lit r) = (\<lambda>m. r)"
  by (rule ext) simp

lemma re_sub_literal: "backslash \<notin> set r \<Longrightarrow> re_sub lbl r s = Inr (substitute r lbl s)"
  by (simp add: re_sub_def parse_template_literal expand_template_literal_fun)

lemma top_label_ok: "''Top:'' \<noteq> []" "newline \<notin> set (lower ''Top:'')"
  unfolding newline_lower by (simp_all add: newline_def)

lemma bottom_label_ok: "''Bottom:'' \<noteq> []" "newline \<notin> set (lower ''Bottom:'')"
  unfolding newline_lower by (simp_all add: newline_def)

lemma placeholder_match:
  "X = [] \<or> hd X = newline \<Longrightarrow>
   match_here ''Top:'' (''Top: (Please select a top item)'' @ X) = Some (''(Please select a top item)'', X)"
  using match_here_label_value[of "''Top:''" "''Top:''" "''(Please select a top item)''" X]
  by (simp add: label_at_def is_space_def newline_def)

lemma none_needed_match:
  "X = [] \<or> hd X = newline \<Longrightarrow>
   match_here ''Bottom:'' (''Bottom: None needed'' @ X) = Some (''None needed'', X)"
  using match_here_label_value[of "''Bottom:''" "''Bottom:''" "''None needed''" X]
  by (simp add: label_at_def is_space_def newline_def)

lemma none_not_complete:
  "\<not> is_complete_outfit ''none''" "\<not> is_complete_outfit ''none needed''" "\<not> is_complete_outfit []"
  "\<not> is_complete_outfit (lower ''None needed'')"
  "\<not> is_complete_outfit (lower ''(Please select a top item)'')"
  by code_simp+

lemma strip_literals:
  "strip ''(Please select a top item)'' = ''(Please select a top item)''"
  "strip ''None needed'' = ''None needed''"
  by code_simp+

subsection \<open>Labels and segmented texts\<close>

declare outside_matches.simps(2) [simp del]

lemma lower_char_literals [simp]:
  "lower_char CHR ''T'' = CHR ''t''" "lower_char CHR ''B'' = CHR ''b''"
  "lower_char CHR ''N'' = CHR ''n''" "lower_char CHR ''P'' = CHR ''p''"
  "lower_char CHR ''o'' = CHR ''o''" "lower_char CHR ''p'' = CHR ''p''"
  "lower_char CHR '':'' = CHR '':''" "lower_char CHR '' '' = CHR '' ''"
  "lower_char CHR ''t'' = CHR ''t''" "lower_char CHR ''m'' = CHR ''m''"
  "lower_char CHR ''b'' = CHR ''b''" "lower_char CHR ''n'' = CHR ''n''"
  "lower_char CHR ''e'' = CHR ''e''" "lower_char CHR ''d'' = CHR ''d''"
  "lower_char CHR ''('' = CHR ''(''" "lower_char CHR '')'' = CHR '')''"
  "lower_char CHR ''l'' = CHR ''l''" "lower_char CHR ''a'' = CHR ''a''"
  "lower_char CHR ''s'' = CHR ''s''" "lower_char CHR ''c'' = CHR ''c''"
  "lower_char CHR ''i'' = CHR ''i''"
  by code_simp+

lemma label_at_Nil [simp]: "label_at ''Top:'' [] = False" "label_at ''Bottom:'' [] = False"
  by (simp_all add: label_at_def)

lemma label_at_Top_Cons:
  "label_at ''Top:'' (c # cs) \<longleftrightarrow> lower_char c = CHR ''t'' \<and> lower (take 3 cs) = ''op:''"
  by (simp add: label_at_def eval_nat_numeral)

lemma label_at_Bottom_Cons:
  "label_at ''Bottom:'' (c # cs) \<longleftrightarrow> lower_char c = CHR ''b'' \<and> lower (take 6 cs) = ''ottom:''"
  by (simp add: label_at_def eval_nat_numeral)

lemma labels_exclusive: "label_at ''Top:'' s \<Longrightarrow> \<not> label_at ''Bottom:'' s"
  by (cases s) (auto simp: label_at_Top_Cons label_at_Bottom_Cons)

lemma label_here_cases:
  "label_here s = None \<longleftrightarrow> \<not> label_at ''Top:'' s \<and> \<not> label_at ''Bottom:'' s"
  "label_here s = Some l \<longleftrightarrow> (l = ''Top:'' \<and> label_at ''Top:'' s) \<or> (l = ''Bottom:'' \<and> label_at ''Bottom:'' s)"
  using labels_exclusive[of s] by (auto simp: label_here_def)

lemma label_at_before_newline:
  assumes "newline \<notin> set (lower lbl)" "rest = [] \<or> hd rest = newline"
  shows "label_at lbl (a @ rest) = label_at lbl a"
proof (cases "length lbl \<le> length a")
  case True
  then show ?thesis by (rule label_at_append)
next
  case False
  then have short: "length a < length lbl" by simp
  have "\<not> label_at lbl a" using short label_at_length[of lbl a] by auto
  moreover have "\<not> label_at lbl (a @ rest)"
  proof (cases rest)
    case Nil
    then show ?thesis using \<open>\<not> label_at lbl a\<close> by simp
  next
    case (Cons x xs)
    then have x: "x = newline" using assms(2) by simp
    show ?thesis
    proof
      assume l: "label_at lbl (a @ rest)"
      then have "newline \<notin> set (take (length lbl) (a @ rest))"
        using assms(1) by (rule label_at_no_newline)
      moreover have "x \<in> set (take (length lbl) (a @ rest))"
        using Cons short by (simp add: take_Cons')
      ultimately show False using x by simp
    qed
  qed
  ultimately show ?thesis by simp
qed

lemma label_here_before_newline:
  assumes "rest = [] \<or> hd rest = newline"
  shows "label_here (a @ rest) = label_here a"
proof -
  have "label_at ''Top:'' (a @ rest) = label_at ''Top:'' a"
    using top_label_ok(2) assms by (rule label_at_before_newline)
  moreover have "label_at ''Bottom:'' (a @ rest) = label_at ''Bottom:'' a"
    using bottom_label_ok(2) assms by (rule label_at_before_newline)
  ultimately show ?thesis by (simp add: label_here_def)
qed

lemma any_label_suffix: "\<not> any_label (a @ z) \<Longrightarrow> \<not> any_label z"
  by (induction a) auto

lemma label_at_prefix: "label_at lbl a \<Longrightarrow> label_at lbl (a @ b)"
  using label_at_append[of lbl a b] label_at_length[of lbl a] by simp

lemma any_label_prefix: "\<not> any_label (v @ b) \<Longrightarrow> \<not> any_label v"
proof (induction v)
  case Nil
  then show ?case by simp
next
  case (Cons c v)
  then have "label_here ((c # v) @ b) = None" and "\<not> any_label v" by auto
  moreover from this have "label_here (c # v) = None"
    using label_at_prefix[of _ "c # v" b] by (auto simp: label_here_cases(1))
  ultimately show ?case by simp
qed

lemma any_label_drop: "\<not> any_label z \<Longrightarrow> i < length z \<Longrightarrow> label_here (drop i z) = None"
proof (induction z arbitrary: i)
  case Nil
  then show ?case by simp
next
  case (Cons c z)
  then show ?case by (cases i) auto
qed

lemma skip_no_label:
  "\<forall>i<length m. \<not> label_at lbl (drop i (m @ z)) \<Longrightarrow>
   re_sub_with f lbl (m @ z) = m @ re_sub_with f lbl z \<and> re_search lbl (m @ z) = re_search lbl z"
proof (induction m)
  case Nil
  then show ?case by simp
next
  case (Cons c m)
  have "\<not> label_at lbl (drop 0 ((c # m) @ z))" using Cons.prems by blast
  then have nm: "match_here lbl (c # m @ z) = None" by (simp add: match_here_def)
  have "\<forall>i<length m. \<not> label_at lbl (drop i (m @ z))"
  proof (intro allI impI)
    fix i assume "i < length m"
    then have "\<not> label_at lbl (drop (Suc i) ((c # m) @ z))" using Cons.prems by auto
    then show "\<not> label_at lbl (drop i (m @ z))" by simp
  qed
  then show ?case using Cons.IH nm by (simp add: sub_nomatch search_nomatch)
qed

lemma dot_plus_parts:
  "dot_plus z = Some (g, rest) \<Longrightarrow> z = g @ rest \<and> g \<noteq> [] \<and> newline \<notin> set g"
proof -
  assume a: "dot_plus z = Some (g, rest)"
  then have g: "g = takeWhile (\<lambda>c. c \<noteq> newline) z" and r: "rest = dropWhile (\<lambda>c. c \<noteq> newline) z"
    and ne: "takeWhile (\<lambda>c. c \<noteq> newline) z \<noteq> []"
    by (auto simp: dot_plus_def split: list.splits)
  have "newline \<notin> set g" unfolding g by (auto dest: set_takeWhileD)
  then show ?thesis using g r ne by simp
qed

lemma ws_dot_plus_region:
  "ws_dot_plus z = Some (g, rest) \<Longrightarrow>
   \<exists>w. z = w @ g @ rest \<and> g \<noteq> [] \<and> newline \<notin> set g
     \<and> (\<forall>X. (X = [] \<or> hd X = newline) \<and> (ws_dot_plus rest = None \<longrightarrow> ws_dot_plus X = None)
            \<longrightarrow> ws_dot_plus (w @ g @ X) = Some (g, X))"
proof (induction z)
  case Nil
  then show ?case by (simp add: dot_plus_def)
next
  case (Cons c cs)
  show ?case
  proof (cases "is_space c \<and> ws_dot_plus cs \<noteq> None")
    case True
    then have inner: "ws_dot_plus cs = Some (g, rest)" using Cons.prems by auto
    then obtain w where w: "cs = w @ g @ rest" "g \<noteq> []" "newline \<notin> set g"
      and wX: "\<forall>X. (X = [] \<or> hd X = newline) \<and> (ws_dot_plus rest = None \<longrightarrow> ws_dot_plus X = None)
            \<longrightarrow> ws_dot_plus (w @ g @ X) = Some (g, X)"
      using Cons.IH by blast
    have "\<forall>X. (X = [] \<or> hd X = newline) \<and> (ws_dot_plus rest = None \<longrightarrow> ws_dot_plus X = None)
            \<longrightarrow> ws_dot_plus ((c # w) @ g @ X) = Some (g, X)"
      using wX True by simp
    moreover have "c # cs = (c # w) @ g @ rest" using w by simp
    ultimately show ?thesis using w(2,3) by blast
  next
    case False
    then have dp: "dot_plus (c # cs) = Some (g, rest)"
      using Cons.prems by (auto split: if_splits option.splits)
    then have parts: "c # cs = g @ rest" "g \<noteq> []" "newline \<notin> set g"
      using dot_plus_parts by blast+
    then obtain g' where g: "g = c # g'" by (cases g) auto
    have "\<forall>X. (X = [] \<or> hd X = newline) \<and> (ws_dot_plus rest = None \<longrightarrow> ws_dot_plus X = None)
            \<longrightarrow> ws_dot_plus ([] @ g @ X) = Some (g, X)"
    proof (intro allI impI)
      fix X assume X: "(X = [] \<or> hd X = newline) \<and> (ws_dot_plus rest = None \<longrightarrow> ws_dot_plus X = None)"
      then have dX: "dot_plus (g @ X) = Some (g, X)" using parts by (intro dot_plus_value) auto
      show "ws_dot_plus ([] @ g @ X) = Some (g, X)"
      proof (cases "is_space c")
        case sp: True
        then have cs_none: "ws_dot_plus cs = None" using False by (cases "ws_dot_plus cs") auto
        then have all_nl: "\<forall>x\<in>set cs. x = newline" by (simp add: ws_dot_plus_None)
        have "g' = []"
        proof (cases g')
          case Nil
          then show ?thesis .
        next
          case (Cons a as)
          then have "a \<in> set cs" using parts(1) g by auto
          then have "a = newline" using all_nl by simp
          then show ?thesis using parts(3) g Cons by simp
        qed
        then have "rest = cs" using parts(1) g by simp
        then have "ws_dot_plus X = None" using X cs_none by simp
        then show ?thesis using dX g \<open>g' = []\<close> sp by simp
      next
        case nsp: False
        then show ?thesis using dX g by simp
      qed
    qed
    moreover have "c # cs = [] @ g @ rest" using parts by simp
    ultimately show ?thesis using parts(2,3) by blast
  qed
qed

lemma match_here_region:
  assumes "match_here lbl s = Some (g, rest)"
  shows "\<exists>w. s = w @ g @ rest \<and> length lbl \<le> length w \<and> g \<noteq> [] \<and> newline \<notin> set g
     \<and> (\<forall>X. (X = [] \<or> hd X = newline) \<and> (ws_dot_plus rest = None \<longrightarrow> ws_dot_plus X = None)
            \<longrightarrow> match_here lbl (w @ g @ X) = Some (g, X))"
proof -
  have l: "label_at lbl s" and ws: "ws_dot_plus (drop (length lbl) s) = Some (g, rest)"
    using assms by (auto simp: match_here_def split: if_splits)
  have len: "length lbl \<le> length s" using l by (rule label_at_length)
  obtain w where w: "drop (length lbl) s = w @ g @ rest" "g \<noteq> []" "newline \<notin> set g"
    and wX: "\<forall>X. (X = [] \<or> hd X = newline) \<and> (ws_dot_plus rest = None \<longrightarrow> ws_dot_plus X = None)
            \<longrightarrow> ws_dot_plus (w @ g @ X) = Some (g, X)"
    using ws_dot_plus_region[OF ws] by blast
  define a where "a = take (length lbl) s"
  have la: "length a = length lbl" using len by (simp add: a_def)
  have s: "s = (a @ w) @ g @ rest" using w(1) by (simp add: a_def) (metis append_take_drop_id)
  have al: "label_at lbl a" using l by (simp add: label_at_def a_def)
  have "\<forall>X. (X = [] \<or> hd X = newline) \<and> (ws_dot_plus rest = None \<longrightarrow> ws_dot_plus X = None)
            \<longrightarrow> match_here lbl ((a @ w) @ g @ X) = Some (g, X)"
  proof (intro allI impI)
    fix X assume X: "(X = [] \<or> hd X = newline) \<and> (ws_dot_plus rest = None \<longrightarrow> ws_dot_plus X = None)"
    have "label_at lbl (a @ (w @ g @ X))" using al by (rule label_at_prefix)
    moreover have "drop (length lbl) ((a @ w) @ g @ X) = w @ g @ X" using la by simp
    ultimately show "match_here lbl ((a @ w) @ g @ X) = Some (g, X)"
      using wX X by (simp add: match_here_def)
  qed
  moreover have "length lbl \<le> length (a @ w)" using la by simp
  ultimately show ?thesis using s w(2,3) by blast
qed

lemma sub_all_newlines:
  assumes "lbl \<noteq> []" "newline \<notin> set (lower lbl)" "ws_dot_plus rest = None"
  shows "re_sub_with f lbl rest = rest" "re_search lbl rest = None"
proof -
  have z: "\<forall>x\<in>set rest. x = newline" using assms(3) by (simp add: ws_dot_plus_None)
  have "length ([]::string) < length lbl" using assms(1) by simp
  then have "re_sub_with f lbl ([] @ rest) = [] @ rest \<and> re_search lbl ([] @ rest) = None"
    using no_match_short[OF z assms(2)] by blast
  then show "re_sub_with f lbl rest = rest" "re_search lbl rest = None" by simp_all
qed

lemma top_after_bottom_sub:
  assumes "label_at ''Bottom:'' R"
  shows "label_at ''Top:'' (c # substitute R ''Bottom:'' cs) = label_at ''Top:'' (c # cs)"
proof -
  have "lower (take 3 (substitute R ''Bottom:'' cs)) = lower (take 3 cs)"
    using assms by (rule lower_take_sub) simp
  then show ?thesis by (simp add: label_at_Top_Cons)
qed

lemma bottom_after_top_sub:
  assumes nb: "\<not> label_at ''Bottom:'' (c # cs)"
  shows "\<not> label_at ''Bottom:'' (c # substitute (''Top: '' @ v) ''Top:'' cs)"
proof
  let ?R = "''Top: '' @ v"
  have lR: "label_at ''Top:'' ?R" by (simp add: label_at_def)
  assume a: "label_at ''Bottom:'' (c # substitute ?R ''Top:'' cs)"
  then have c: "lower_char c = CHR ''b''" and y: "lower (take 6 (substitute ?R ''Top:'' cs)) = ''ottom:''"
    by (simp_all add: label_at_Bottom_Cons)
  show False
  proof (cases cs)
    case Nil
    then show ?thesis using y by simp
  next
    case (Cons d0 ds)
    show ?thesis
    proof (cases "match_here ''Top:'' (d0 # ds)")
      case (Some m)
      then obtain g rest where "match_here ''Top:'' (d0 # ds) = Some (g, rest)" by (cases m) auto
      then have "substitute ?R ''Top:'' cs = ?R @ substitute ?R ''Top:'' rest" using Cons by (simp add: sub_match)
      then show ?thesis using y by (simp add: eval_nat_numeral)
    next
      case None
      then have y0: "substitute ?R ''Top:'' cs = d0 # substitute ?R ''Top:'' ds" using Cons by (simp add: sub_nomatch)
      then have d0: "lower_char d0 = CHR ''o''" and y1: "lower (take 5 (substitute ?R ''Top:'' ds)) = ''ttom:''"
        using y by (simp_all add: eval_nat_numeral)
      show ?thesis
      proof (cases ds)
        case Nil
        then show ?thesis using y1 by simp
      next
        case ds: (Cons d1 es)
        show ?thesis
        proof (cases "match_here ''Top:'' (d1 # es)")
          case (Some m)
          then obtain g rest where "match_here ''Top:'' (d1 # es) = Some (g, rest)" by (cases m) auto
          then have "substitute ?R ''Top:'' ds = ?R @ substitute ?R ''Top:'' rest" using ds by (simp add: sub_match)
          then show ?thesis using y1 by (simp add: eval_nat_numeral)
        next
          case n2: None
          then have "substitute ?R ''Top:'' ds = d1 # substitute ?R ''Top:'' es" using ds by (simp add: sub_nomatch)
          then have d1: "lower_char d1 = CHR ''t''" and y2: "lower (take 4 (substitute ?R ''Top:'' es)) = ''tom:''"
            using y1 by (simp_all add: eval_nat_numeral)
          have "lower (take 4 (substitute ?R ''Top:'' es)) = lower (take 4 es)"
            using lR by (rule lower_take_sub) simp
          then have "lower (take 4 es) = ''tom:''" using y2 by simp
          then have "lower (take 6 cs) = ''ottom:''"
            using Cons ds d0 d1 by (simp add: eval_nat_numeral)
          then have "label_at ''Bottom:'' (c # cs)" using c by (simp add: label_at_Bottom_Cons)
          then show ?thesis using nb by simp
        qed
      qed
    qed
  qed
qed

lemma is_label: "l = ''Top:'' \<or> l = ''Bottom:'' \<Longrightarrow> l \<noteq> [] \<and> newline \<notin> set (lower l)"
  using top_label_ok bottom_label_ok by auto

lemma label_here_other:
  assumes "label_here s = Some l" "lbl = ''Top:'' \<or> lbl = ''Bottom:''" "lbl \<noteq> l"
  shows "\<not> label_at lbl s"
  using assms labels_exclusive[of s] by (auto simp: label_here_cases(2))

lemma region_clean:
  assumes l: "label_here (m @ Z) = Some l" and lbl: "lbl = ''Top:'' \<or> lbl = ''Bottom:''" "lbl \<noteq> l"
    and clean: "\<not> any_label (tl m)" and Z: "Z = [] \<or> hd Z = newline"
  shows "\<forall>i<length m. \<not> label_at lbl (drop i (m @ Z))"
proof (intro allI impI)
  fix i assume i: "i < length m"
  show "\<not> label_at lbl (drop i (m @ Z))"
  proof (cases i)
    case 0
    then show ?thesis using label_here_other[OF l lbl] by simp
  next
    case (Suc j)
    then have j: "j < length (tl m)" using i by (cases m) auto
    then have "label_here (drop j (tl m)) = None" using clean by (intro any_label_drop)
    then have "\<not> label_at lbl (drop j (tl m))" using lbl(1) by (auto simp: label_here_cases(1))
    moreover have "label_at lbl (drop j (tl m) @ Z) = label_at lbl (drop j (tl m))"
      using is_label[OF lbl(1)] Z by (intro label_at_before_newline) auto
    moreover have "drop i (m @ Z) = drop j (tl m) @ Z" using Suc i by (cases m) auto
    ultimately show ?thesis by simp
  qed
qed

lemma outside_label_step:
  assumes o: "outside_matches (c # cs) = Some segs" and l: "label_here (c # cs) = Some l"
  obtains g rest m segs' where
    "match_here l (c # cs) = Some (g, rest)"
    "c # cs = m @ rest"
    "\<not> any_label (tl m)"
    "outside_matches rest = Some segs'"
    "segs = [] # segs'"
    "rest = [] \<or> hd rest = newline"
    "length rest < length (c # cs)"
    "\<exists>w. m = w @ g \<and> w \<noteq> []"
    "\<And>X. X = [] \<or> hd X = newline \<Longrightarrow> (ws_dot_plus rest = None \<Longrightarrow> ws_dot_plus X = None)
            \<Longrightarrow> match_here l (m @ X) = Some (g, X)"
proof -
  from o l obtain g rest where mh: "match_here l (c # cs) = Some (g, rest)"
    by (cases "match_here l (c # cs)") (auto simp: outside_matches.simps(2))
  let ?m = "take (length (c # cs) - length rest) (c # cs)"
  from o l mh have clean: "\<not> any_label (tl ?m)"
    by (auto simp: outside_matches.simps(2) split: if_splits)
  from o l mh clean obtain segs' where segs: "outside_matches rest = Some segs'" "segs = [] # segs'"
    by (auto simp: outside_matches.simps(2) split: if_splits)
  have lab: "l = ''Top:'' \<or> l = ''Bottom:''" using l by (auto simp: label_here_cases(2))
  from match_here_region[OF mh] obtain w where w: "c # cs = w @ g @ rest" "length l \<le> length w" "g \<noteq> []"
    and wX: "\<forall>X. (X = [] \<or> hd X = newline) \<and> (ws_dot_plus rest = None \<longrightarrow> ws_dot_plus X = None)
            \<longrightarrow> match_here l (w @ g @ X) = Some (g, X)"
    by (elim exE conjE)
  have m: "?m = w @ g" using w(1) by simp
  have wne: "w \<noteq> []" using w(2) lab by auto
  have r: "rest = [] \<or> hd rest = newline" using mh by (rule match_here_rest)
  have len: "length rest < length (c # cs)" using mh by (rule match_here_shorter)
  have s: "c # cs = (w @ g) @ rest" using w(1) by simp
  have cl: "\<not> any_label (tl (w @ g))" using clean m by simp
  have ex: "\<exists>w'. w @ g = w' @ g \<and> w' \<noteq> []" using wne by blast
  have rep: "\<And>X. X = [] \<or> hd X = newline \<Longrightarrow> (ws_dot_plus rest = None \<Longrightarrow> ws_dot_plus X = None)
            \<Longrightarrow> match_here l ((w @ g) @ X) = Some (g, X)"
  proof -
    fix X assume "X = [] \<or> hd X = newline" "ws_dot_plus rest = None \<Longrightarrow> ws_dot_plus X = None"
    then have "(X = [] \<or> hd X = newline) \<and> (ws_dot_plus rest = None \<longrightarrow> ws_dot_plus X = None)" by simp
    then have "match_here l (w @ g @ X) = Some (g, X)" by (rule wX[rule_format])
    then show "match_here l ((w @ g) @ X) = Some (g, X)" by simp
  qed
  show thesis by (rule that[OF mh s cl segs r len ex rep])
qed

subsection \<open>Substitution keeps the segments\<close>

lemma outside_sub:
  assumes lbl: "lbl = ''Top:'' \<or> lbl = ''Bottom:''"
    and R: "\<And>X. X = [] \<or> hd X = newline \<Longrightarrow> match_here lbl (R @ X) = Some (v, X)"
    and Rclean: "\<not> any_label (tl R)"
    and straddle: "\<And>c cs. label_here (c # cs) = None \<Longrightarrow> label_here (c # substitute R lbl cs) = None"
  shows "outside_matches s = Some segs \<Longrightarrow> outside_matches (substitute R lbl s) = Some segs"
proof (induction s arbitrary: segs rule: length_induct)
  case (1 s)
  note ok = is_label[OF lbl]
  show ?case
  proof (cases s)
    case Nil
    then show ?thesis using 1(2) by simp
  next
    case (Cons c cs)
    show ?thesis
    proof (cases "label_here (c # cs)")
      case None
      then obtain segs' where segs: "outside_matches cs = Some segs'" "segs = cons_first c segs'"
        using 1(2) Cons by (auto simp: outside_matches.simps(2))
      have "\<not> label_at lbl (c # cs)" using None lbl by (auto simp: label_here_cases(1))
      then have sb: "substitute R lbl (c # cs) = c # substitute R lbl cs"
        by (simp add: sub_nomatch match_here_def)
      have "label_here (c # substitute R lbl cs) = None" using None by (rule straddle)
      moreover have "outside_matches (substitute R lbl cs) = Some segs'" using 1(1) Cons segs(1) by simp
      ultimately show ?thesis using sb Cons segs(2) by (simp add: outside_matches.simps(2))
    next
      case (Some l)
      have o': "outside_matches (c # cs) = Some segs" using 1(2) Cons by simp
      show ?thesis
      proof (rule outside_label_step[OF o' Some])
      fix g rest m segs'
      assume mh: "match_here l (c # cs) = Some (g, rest)"
        and s: "c # cs = m @ rest"
        and clean: "\<not> any_label (tl m)"
        and segs: "outside_matches rest = Some segs'" "segs = [] # segs'"
        and r: "rest = [] \<or> hd rest = newline" and len: "length rest < length (c # cs)"
        and ex: "\<exists>w. m = w @ g \<and> w \<noteq> []"
        and mX: "\<And>X. X = [] \<or> hd X = newline \<Longrightarrow> (ws_dot_plus rest = None \<Longrightarrow> ws_dot_plus X = None)
            \<Longrightarrow> match_here l (m @ X) = Some (g, X)"
      let ?X = "substitute R lbl rest"
      have X: "?X = [] \<or> hd ?X = newline" using ok r by (intro sub_starts_newline) auto
      have IH: "outside_matches ?X = Some segs'" using 1(1) len Cons segs(1) by simp
      have mne: "m \<noteq> []" using s len by auto
      show ?thesis
      proof (cases "l = lbl")
        case True
        have sb: "substitute R lbl (c # cs) = R @ ?X" using mh True by (simp add: sub_match)
        have mR: "match_here lbl (R @ ?X) = Some (v, ?X)" using X by (rule R)
        then have lR: "label_at lbl (R @ ?X)" by (auto simp: match_here_def split: if_splits)
        then have Rne: "R @ ?X \<noteq> []" using ok label_at_length[of lbl "R @ ?X"] by auto
        have "match_here lbl (R @ []) = Some (v, [])" by (rule R) simp
        then have "label_at lbl R" by (auto simp: match_here_def split: if_splits)
        then have "R \<noteq> []" using ok label_at_length[of lbl R] by auto
        then obtain r0 R' where Rc: "R = r0 # R'" by (cases R) auto
        have lh: "label_here (R @ ?X) = Some lbl"
          using lR lbl labels_exclusive[of "R @ ?X"] by (auto simp: label_here_def)
        have "outside_matches (r0 # R' @ ?X) = Some ([] # segs')"
          using lh mR IH Rclean Rc by (simp add: outside_matches.simps(2))
        then show ?thesis using sb Cons segs(2) Rc by simp
      next
        case False
        have lh: "label_here (m @ rest) = Some l" using Some s by simp
        have "\<forall>i<length m. \<not> label_at lbl (drop i (m @ rest))"
          using lh lbl False clean r by (intro region_clean) auto
        then have sb: "substitute R lbl (m @ rest) = m @ ?X" using skip_no_label by blast
        have side: "ws_dot_plus rest = None \<Longrightarrow> ws_dot_plus ?X = None"
          using sub_all_newlines(1)[of lbl rest] ok by auto
        have mh': "match_here l (m @ ?X) = Some (g, ?X)" using X side by (rule mX)
        have "label_here (m @ ?X) = label_here m" using X by (rule label_here_before_newline)
        also have "\<dots> = label_here (m @ rest)" using r by (rule label_here_before_newline[symmetric])
        finally have lh': "label_here (m @ ?X) = Some l" using lh by simp
        obtain m0 m' where mc: "m = m0 # m'" using mne by (cases m) auto
        have "outside_matches (m0 # m' @ ?X) = Some ([] # segs')"
          using lh' mh' IH clean mc by (simp add: outside_matches.simps(2))
        then show ?thesis using sb s Cons segs(2) mc by simp
      qed
      qed
    qed
  qed
qed

lemma search_other_label:
  assumes lbl: "lbl = ''Top:'' \<or> lbl = ''Bottom:''" and lbl2: "lbl2 = ''Top:'' \<or> lbl2 = ''Bottom:''"
    and diff: "lbl2 \<noteq> lbl"
    and R: "\<And>X. X = [] \<or> hd X = newline \<Longrightarrow> match_here lbl (R @ X) = Some (v, X)"
    and Rclean: "\<not> any_label (tl R)"
    and straddle: "\<And>c cs. label_here (c # cs) = None \<Longrightarrow> label_here (c # substitute R lbl cs) = None"
  shows "outside_matches s = Some segs \<Longrightarrow> re_search lbl2 (substitute R lbl s) = re_search lbl2 s"
proof (induction s arbitrary: segs rule: length_induct)
  case (1 s)
  note ok = is_label[OF lbl]
  show ?case
  proof (cases s)
    case Nil
    then show ?thesis by simp
  next
    case (Cons c cs)
    show ?thesis
    proof (cases "label_here (c # cs)")
      case None
      then obtain segs' where segs: "outside_matches cs = Some segs'"
        using 1(2) Cons by (auto simp: outside_matches.simps(2))
      have "\<not> label_at lbl (c # cs)" using None lbl by (auto simp: label_here_cases(1))
      then have sb: "substitute R lbl (c # cs) = c # substitute R lbl cs"
        by (simp add: sub_nomatch match_here_def)
      have "label_here (c # substitute R lbl cs) = None" using None by (rule straddle)
      then have "\<not> label_at lbl2 (c # substitute R lbl cs)" using lbl2 by (auto simp: label_here_cases(1))
      then have "re_search lbl2 (c # substitute R lbl cs) = re_search lbl2 (substitute R lbl cs)"
        by (simp add: search_nomatch match_here_def)
      also have "\<dots> = re_search lbl2 cs" using 1(1) Cons segs by simp
      also have "\<dots> = re_search lbl2 (c # cs)"
        using None lbl2 by (auto simp: label_here_cases(1) search_nomatch match_here_def)
      finally show ?thesis using sb Cons by simp
    next
      case (Some l)
      have o': "outside_matches (c # cs) = Some segs" using 1(2) Cons by simp
      show ?thesis
      proof (rule outside_label_step[OF o' Some])
      fix g rest m segs'
      assume mh: "match_here l (c # cs) = Some (g, rest)"
        and s: "c # cs = m @ rest"
        and clean: "\<not> any_label (tl m)"
        and segs: "outside_matches rest = Some segs'" "segs = [] # segs'"
        and r: "rest = [] \<or> hd rest = newline" and len: "length rest < length (c # cs)"
        and ex: "\<exists>w. m = w @ g \<and> w \<noteq> []"
        and mX: "\<And>X. X = [] \<or> hd X = newline \<Longrightarrow> (ws_dot_plus rest = None \<Longrightarrow> ws_dot_plus X = None)
            \<Longrightarrow> match_here l (m @ X) = Some (g, X)"
      let ?X = "substitute R lbl rest"
      have X: "?X = [] \<or> hd ?X = newline" using ok r by (intro sub_starts_newline) auto
      have IH: "re_search lbl2 ?X = re_search lbl2 rest" using 1(1) len Cons segs(1) by simp
      have mne: "m \<noteq> []" using s len by auto
      have lh: "label_here (m @ rest) = Some l" using Some s by simp
      have ll: "l = lbl \<or> l = lbl2" using Some lbl lbl2 diff by (auto simp: label_here_cases(2))
      show ?thesis
      proof (cases "l = lbl")
        case True
        have sb: "substitute R lbl (c # cs) = R @ ?X" using mh True by (simp add: sub_match)
        have mR: "match_here lbl (R @ ?X) = Some (v, ?X)" using X by (rule R)
        then have lR: "label_at lbl (R @ ?X)" by (auto simp: match_here_def split: if_splits)
        have lhR: "label_here (R @ ?X) = Some lbl"
          using lR lbl labels_exclusive[of "R @ ?X"] by (auto simp: label_here_def)
        have "\<forall>i<length R. \<not> label_at lbl2 (drop i (R @ ?X))"
          using lhR lbl2 diff Rclean X by (intro region_clean) auto
        then have a: "re_search lbl2 (R @ ?X) = re_search lbl2 ?X" using skip_no_label by blast
        have "\<forall>i<length m. \<not> label_at lbl2 (drop i (m @ rest))"
          using lh lbl2 diff True clean r by (intro region_clean) auto
        then have b: "re_search lbl2 (m @ rest) = re_search lbl2 rest" using skip_no_label by blast
        show ?thesis using sb a b IH s Cons by simp
      next
        case False
        then have l2: "l = lbl2" using ll by simp
        have "\<forall>i<length m. \<not> label_at lbl (drop i (m @ rest))"
          using lh lbl False clean r by (intro region_clean) auto
        then have sb: "substitute R lbl (m @ rest) = m @ ?X" using skip_no_label by blast
        have side: "ws_dot_plus rest = None \<Longrightarrow> ws_dot_plus ?X = None"
          using sub_all_newlines(1)[of lbl rest] ok by auto
        have mh': "match_here l (m @ ?X) = Some (g, ?X)" using X side by (rule mX)
        obtain m0 m' where mc: "m = m0 # m'" using mne by (cases m) auto
        have "re_search lbl2 (m0 # m' @ ?X) = Some g" using mh' l2 mc by (simp add: search_match)
        moreover have "re_search lbl2 (c # cs) = Some g" using mh l2 by (simp add: search_match)
        ultimately show ?thesis using sb s Cons mc by simp
      qed
      qed
    qed
  qed
qed

subsection \<open>Extracted values\<close>

lemma strip_parts: "\<exists>a b. g = a @ strip g @ b"
proof -
  define d where "d = dropWhile is_space g"
  have g: "g = takeWhile is_space g @ d" by (simp add: d_def)
  have "rev (takeWhile is_space (rev d) @ dropWhile is_space (rev d)) = rev (rev d)"
    by (simp only: takeWhile_dropWhile_id)
  then have "rev (dropWhile is_space (rev d)) @ rev (takeWhile is_space (rev d)) = d"
    by (simp only: rev_append rev_rev_ident)
  then have "d = strip g @ rev (takeWhile is_space (rev d))" by (simp add: strip_def d_def)
  then have "g = takeWhile is_space g @ strip g @ rev (takeWhile is_space (rev d))" using g by simp
  then show ?thesis by blast
qed

lemma set_strip: "set (strip g) \<subseteq> set g"
proof -
  obtain a b where "g = a @ strip g @ b" using strip_parts by blast
  then have "set g = set a \<union> set (strip g) \<union> set b" by (metis set_append sup_assoc)
  then show ?thesis by blast
qed

lemma strip_ends:
  assumes "strip g \<noteq> []"
  shows "\<not> is_space (hd (strip g))" "\<not> is_space (last (strip g))"
proof -
  define d where "d = dropWhile is_space g"
  define x where "x = dropWhile is_space (rev d)"
  have sg: "strip g = rev x" by (simp add: strip_def d_def x_def)
  then have xne: "x \<noteq> []" using assms by simp
  then have "\<not> is_space (hd x)" unfolding x_def by (rule hd_dropWhile)
  then show "\<not> is_space (last (strip g))" using sg xne by (simp add: last_rev)
  have dne: "d \<noteq> []" using xne by (auto simp: x_def)
  then have hd_d: "\<not> is_space (hd d)" unfolding d_def by (rule hd_dropWhile)
  have "rev (takeWhile is_space (rev d) @ x) = rev (rev d)"
    unfolding x_def by (simp only: takeWhile_dropWhile_id)
  then have "rev x @ rev (takeWhile is_space (rev d)) = d"
    by (simp only: rev_append rev_rev_ident)
  then have "hd d = hd (rev x)" using xne by (metis hd_append2 rev_is_Nil_conv)
  then show "\<not> is_space (hd (strip g))" using hd_d sg by simp
qed

lemma dropWhile_hd: "xs \<noteq> [] \<Longrightarrow> \<not> P (hd xs) \<Longrightarrow> dropWhile P xs = xs"
  by (cases xs) auto

lemma strip_strip: "strip (strip g) = strip g"
proof (cases "strip g = []")
  case True
  moreover have "strip [] = []" by (simp add: strip_def)
  ultimately show ?thesis by simp
next
  case False
  define p where "p = strip g"
  have h: "\<not> is_space (hd p)" and l: "\<not> is_space (last p)" and ne: "p \<noteq> []"
    using strip_ends[OF False] False by (simp_all add: p_def)
  have a: "dropWhile is_space p = p" using ne h by (rule dropWhile_hd)
  have "hd (rev p) = last p" using ne by (simp add: hd_rev)
  then have "\<not> is_space (hd (rev p))" using l by simp
  moreover have "rev p \<noteq> []" using ne by simp
  ultimately have b: "dropWhile is_space (rev p) = rev p" by (intro dropWhile_hd)
  have "strip p = rev (dropWhile is_space (rev (dropWhile is_space p)))" by (simp add: strip_def)
  also have "\<dots> = p" by (simp only: a b rev_rev_ident)
  finally show ?thesis by (simp add: p_def)
qed

lemma re_search_value:
  "re_search lbl s = Some g \<Longrightarrow> g \<noteq> [] \<and> newline \<notin> set g"
proof (induction s)
  case Nil
  then show ?case by simp
next
  case (Cons c cs)
  show ?case
  proof (cases "match_here lbl (c # cs)")
    case None
    then show ?thesis using Cons by (simp add: search_nomatch)
  next
    case (Some m)
    then obtain g' rest where m: "match_here lbl (c # cs) = Some (g', rest)" by (cases m) auto
    then have "g' = g" using Cons.prems by (simp add: search_match)
    then show ?thesis using match_here_region[OF m] by auto
  qed
qed

lemma search_value_clean:
  assumes lbl: "lbl = ''Top:'' \<or> lbl = ''Bottom:''"
  shows "outside_matches s = Some segs \<Longrightarrow> re_search lbl s = Some g \<Longrightarrow> \<not> any_label g"
proof (induction s arbitrary: segs rule: length_induct)
  case (1 s)
  show ?case
  proof (cases s)
    case Nil
    then show ?thesis using 1(3) by simp
  next
    case (Cons c cs)
    show ?thesis
    proof (cases "label_here (c # cs)")
      case None
      then obtain segs' where segs: "outside_matches cs = Some segs'"
        using 1(2) Cons by (auto simp: outside_matches.simps(2))
      have "\<not> label_at lbl (c # cs)" using None lbl by (auto simp: label_here_cases(1))
      then have rs: "re_search lbl cs = Some g" using 1(3) Cons by (simp add: search_nomatch match_here_def)
      have "length cs < length s" using Cons by simp
      from 1(1)[rule_format, OF this segs rs] show ?thesis .
    next
      case (Some l)
      have o': "outside_matches (c # cs) = Some segs" using 1(2) Cons by simp
      show ?thesis
      proof (rule outside_label_step[OF o' Some])
        fix g' rest m segs'
        assume mh: "match_here l (c # cs) = Some (g', rest)"
          and s: "c # cs = m @ rest"
          and clean: "\<not> any_label (tl m)"
          and segs: "outside_matches rest = Some segs'" "segs = [] # segs'"
          and r: "rest = [] \<or> hd rest = newline" and len: "length rest < length (c # cs)"
          and ex: "\<exists>w. m = w @ g' \<and> w \<noteq> []"
        show "\<not> any_label g"
        proof (cases "l = lbl")
          case True
          then have gg: "g' = g" using mh 1(3) Cons by (simp add: search_match)
          obtain w where w: "m = w @ g'" "w \<noteq> []" using ex by blast
          then have "tl m = tl w @ g'" by (cases w) auto
          then have "\<not> any_label (tl w @ g')" using clean by simp
          then show ?thesis using gg any_label_suffix by blast
        next
          case False
          have lh: "label_here (m @ rest) = Some l" using Some s by simp
          have "\<forall>i<length m. \<not> label_at lbl (drop i (m @ rest))"
            using lh lbl False clean r by (intro region_clean) auto
          then have "re_search lbl (m @ rest) = re_search lbl rest" using skip_no_label by blast
          then have rs: "re_search lbl rest = Some g" using 1(3) Cons s by simp
          have "length rest < length s" using len Cons by simp
          from 1(1)[rule_format, OF this segs(1) rs] show ?thesis .
        qed
      qed
    qed
  qed
qed

lemma any_label_strip: "\<not> any_label g \<Longrightarrow> \<not> any_label (strip g)"
proof -
  assume a: "\<not> any_label g"
  obtain x y where "g = x @ strip g @ y" using strip_parts by blast
  then have "\<not> any_label (x @ strip g @ y)" using a by simp
  then have "\<not> any_label (strip g @ y)" by (rule any_label_suffix)
  then show ?thesis by (rule any_label_prefix)
qed

lemma none_needed_clean: "\<not> any_label (tl ''Bottom: None needed'')"
  by code_simp

lemma placeholder_clean: "\<not> any_label ''(Please select a top item)''"
  by code_simp

lemma label_at_Bottom_literal: "label_at ''Bottom:'' ''Bottom: None needed''"
  by (simp add: label_at_def)

lemma bottom_straddle:
  assumes "label_here (c # cs) = None"
  shows "label_here (c # substitute ''Bottom: None needed'' ''Bottom:'' cs) = None"
proof -
  have "\<not> label_at ''Top:'' (c # cs)" "\<not> label_at ''Bottom:'' (c # cs)"
    using assms by (simp_all add: label_here_cases(1))
  then have "\<not> label_at ''Top:'' (c # substitute ''Bottom: None needed'' ''Bottom:'' cs)"
    "\<not> label_at ''Bottom:'' (c # substitute ''Bottom: None needed'' ''Bottom:'' cs)"
    by (simp_all add: top_after_bottom_sub[OF label_at_Bottom_literal]
        label_at_Cons_sub[OF label_at_Bottom_literal])
  then show ?thesis by (simp add: label_here_cases(1))
qed

lemma top_straddle:
  assumes "label_here (c # cs) = None"
  shows "label_here (c # substitute (''Top: '' @ v) ''Top:'' cs) = None"
proof -
  have lT: "label_at ''Top:'' (''Top: '' @ v)" by (simp add: label_at_def)
  have "\<not> label_at ''Top:'' (c # cs)" and nb: "\<not> label_at ''Bottom:'' (c # cs)"
    using assms by (simp_all add: label_here_cases(1))
  then have "\<not> label_at ''Top:'' (c # substitute (''Top: '' @ v) ''Top:'' cs)"
    using label_at_Cons_sub[OF lT, of c cs] by simp
  moreover have "\<not> label_at ''Bottom:'' (c # substitute (''Top: '' @ v) ''Top:'' cs)"
    using nb by (rule bottom_after_top_sub)
  ultimately show ?thesis by (simp add: label_here_cases(1))
qed

lemma top_repl_match:
  assumes "v \<noteq> []" "\<not> is_space (hd v)" "newline \<notin> set v" "X = [] \<or> hd X = newline"
  shows "match_here ''Top:'' ((''Top: '' @ v) @ X) = Some (v, X)"
  using match_here_label_value[of "''Top:''" "''Top:''" v X] assms by (simp add: label_at_def)

lemma top_repl_clean:
  assumes "\<not> any_label v"
  shows "\<not> any_label (tl (''Top: '' @ v))"
proof -
  have "label_here (''op: '' @ v) = None" "label_here (''p: '' @ v) = None"
    "label_here ('': '' @ v) = None" "label_here ('' '' @ v) = None"
    by (simp_all add: label_here_cases(1) label_at_Top_Cons label_at_Bottom_Cons)
  then show ?thesis using assms by simp
qed

lemma is_top: "''Top:'' = ''Top:'' \<or> ''Top:'' = ''Bottom:''" by simp

lemma is_bottom: "''Bottom:'' = ''Top:'' \<or> ''Bottom:'' = ''Bottom:''" by simp


lemma search_top_after_bottom:
  "outside_matches s = Some segs \<Longrightarrow>
   re_search ''Top:'' (substitute ''Bottom: None needed'' ''Bottom:'' s) = re_search ''Top:'' s"
  using search_other_label[OF is_bottom is_top, of "''Bottom: None needed''" "''None needed''" s segs]
    none_needed_match none_needed_clean bottom_straddle by simp

lemma search_bottom_after_bottom:
  "re_search ''Bottom:'' (substitute ''Bottom: None needed'' ''Bottom:'' s)
   = (case re_search ''Bottom:'' s of None \<Rightarrow> None | Some g \<Rightarrow> Some ''None needed'')"
  using search_after_sub[OF bottom_label_ok, of "''Bottom: None needed''" "''None needed''" s]
    none_needed_match by simp

lemma sub_bottom_idem:
  "substitute ''Bottom: None needed'' ''Bottom:'' (substitute ''Bottom: None needed'' ''Bottom:'' s)
   = substitute ''Bottom: None needed'' ''Bottom:'' s"
  using sub_idem[OF bottom_label_ok, of "''Bottom: None needed''" "''None needed''" s]
    none_needed_match by simp

lemma outside_sub_top:
  assumes "v \<noteq> []" "\<not> is_space (hd v)" "newline \<notin> set v" "\<not> any_label v"
  shows "outside_matches s = Some segs \<Longrightarrow> outside_matches (substitute (''Top: '' @ v) ''Top:'' s) = Some segs"
proof (rule outside_sub[OF is_top])
  show "\<And>X. X = [] \<or> hd X = newline \<Longrightarrow> match_here ''Top:'' ((''Top: '' @ v) @ X) = Some (v, X)"
    using assms(1-3) by (rule top_repl_match)
  show "\<not> any_label (tl (''Top: '' @ v))" using assms(4) by (rule top_repl_clean)
  show "\<And>c cs. label_here (c # cs) = None \<Longrightarrow> label_here (c # substitute (''Top: '' @ v) ''Top:'' cs) = None"
    by (rule top_straddle)
qed

lemma search_bottom_after_top:
  assumes "v \<noteq> []" "\<not> is_space (hd v)" "newline \<notin> set v" "\<not> any_label v"
  shows "outside_matches s = Some segs \<Longrightarrow>
    re_search ''Bottom:'' (substitute (''Top: '' @ v) ''Top:'' s) = re_search ''Bottom:'' s"
proof (rule search_other_label[OF is_top is_bottom])
  show "''Bottom:'' \<noteq> ''Top:''" by simp
  show "\<And>X. X = [] \<or> hd X = newline \<Longrightarrow> match_here ''Top:'' ((''Top: '' @ v) @ X) = Some (v, X)"
    using assms(1-3) by (rule top_repl_match)
  show "\<not> any_label (tl (''Top: '' @ v))" using assms(4) by (rule top_repl_clean)
  show "\<And>c cs. label_here (c # cs) = None \<Longrightarrow> label_here (c # substitute (''Top: '' @ v) ''Top:'' cs) = None"
    by (rule top_straddle)
qed

lemma search_top_after_top:
  assumes "v \<noteq> []" "\<not> is_space (hd v)" "newline \<notin> set v"
  shows "re_search ''Top:'' (substitute (''Top: '' @ v) ''Top:'' s)
         = (case re_search ''Top:'' s of None \<Rightarrow> None | Some g \<Rightarrow> Some v)"
proof (rule search_after_sub[OF top_label_ok])
  show "\<And>X. X = [] \<or> hd X = newline \<Longrightarrow> match_here ''Top:'' ((''Top: '' @ v) @ X) = Some (v, X)"
    using assms(1-3) by (rule top_repl_match)
qed

lemma placeholder_value:
  "''(Please select a top item)'' \<noteq> []" "\<not> is_space (hd ''(Please select a top item)'')"
  "newline \<notin> set ''(Please select a top item)''"
  by (simp_all add: is_space_def newline_def)

lemma extracted_value:
  assumes "extract_item lbl s \<noteq> []"
  shows "\<not> is_space (hd (extract_item lbl s))" "newline \<notin> set (extract_item lbl s)"
    "strip (extract_item lbl s) = extract_item lbl s"
proof -
  obtain g where g: "re_search lbl s = Some g" "extract_item lbl s = strip g"
    using assms by (auto simp: extract_item_def split: option.splits)
  show "\<not> is_space (hd (extract_item lbl s))" using assms g(2) strip_ends(1) by simp
  have "newline \<notin> set g" using re_search_value[OF g(1)] by simp
  then show "newline \<notin> set (extract_item lbl s)" using set_strip[of g] g(2) by auto
  show "strip (extract_item lbl s) = extract_item lbl s" using g(2) by (simp add: strip_strip)
qed

lemma extracted_clean:
  assumes "outside_matches s = Some segs" "lbl = ''Top:'' \<or> lbl = ''Bottom:''"
  shows "\<not> any_label (extract_item lbl s)"
proof (cases "re_search lbl s")
  case None
  then show ?thesis by (simp add: extract_item_def)
next
  case (Some g)
  have "\<not> any_label g" using assms(2,1) Some by (rule search_value_clean)
  then show ?thesis using Some by (simp add: extract_item_def any_label_strip)
qed

subsection \<open>The four rules of the repair\<close>

lemma re_sub_top: "backslash \<notin> set v \<Longrightarrow> re_sub ''Top:'' (''Top: '' @ v) s = Inr (substitute (''Top: '' @ v) ''Top:'' s)"
  by (rule re_sub_literal) (simp add: backslash_def)

lemma re_sub_none_needed:
  "re_sub ''Bottom:'' ''Bottom: None needed'' s = Inr (substitute ''Bottom: None needed'' ''Bottom:'' s)"
  by (rule re_sub_literal) (simp add: backslash_def)

lemma re_sub_placeholder:
  "re_sub ''Top:'' ''Top: (Please select a top item)'' s = Inr (substitute ''Top: (Please select a top item)'' ''Top:'' s)"
  by (rule re_sub_literal) (simp add: backslash_def)

lemma complete_not_none:
  "is_complete_outfit x \<Longrightarrow> x \<noteq> ''none needed'' \<and> x \<noteq> ''none'' \<and> x \<noteq> []"
  using none_not_complete by auto

lemma fix_rule1:
  assumes "is_complete_outfit (lower (extract_item ''Bottom:'' s))"
    and "lower (extract_item ''Top:'' s) = ''none needed'' \<or> lower (extract_item ''Top:'' s) = ''none''
         \<or> extract_item ''Top:'' s = []"
    and "backslash \<notin> set (extract_item ''Bottom:'' s)"
  shows "fix_complete_outfit_bottom s
         = Inr (substitute ''Bottom: None needed'' ''Bottom:'' (substitute (''Top: '' @ extract_item ''Bottom:'' s) ''Top:'' s))"
proof -
  have c: "(is_complete_outfit (lower (extract_item ''Bottom:'' s))
        \<and> (lower (extract_item ''Top:'' s) = ''none needed'' \<or> lower (extract_item ''Top:'' s) = ''none''
         \<or> extract_item ''Top:'' s = [])) = True"
    using assms(1,2) by simp
  show ?thesis
    by (simp only: fix_complete_outfit_bottom_def Let_def c if_True re_sub_top[OF assms(3)]
        re_sub_none_needed sum.case)
qed

lemma fix_rule23:
  assumes "\<not> (is_complete_outfit (lower (extract_item ''Bottom:'' s))
        \<and> (lower (extract_item ''Top:'' s) = ''none needed'' \<or> lower (extract_item ''Top:'' s) = ''none''
         \<or> extract_item ''Top:'' s = []))"
    and "is_complete_outfit (lower (extract_item ''Bottom:'' s))
         \<or> is_complete_outfit (lower (extract_item ''Top:'' s))"
  shows "fix_complete_outfit_bottom s = Inr (substitute ''Bottom: None needed'' ''Bottom:'' s)"
proof -
  have c: "(is_complete_outfit (lower (extract_item ''Bottom:'' s))
        \<and> (lower (extract_item ''Top:'' s) = ''none needed'' \<or> lower (extract_item ''Top:'' s) = ''none''
         \<or> extract_item ''Top:'' s = [])) = False"
    using assms(1) by simp
  have n: "(lower (extract_item ''Top:'' s) = ''none needed'' \<or> lower (extract_item ''Top:'' s) = ''none'') = False"
    using assms complete_not_none[of "lower (extract_item ''Top:'' s)"] by auto
  have n': "lower (extract_item ''Top:'' s) \<noteq> ''none needed''" "lower (extract_item ''Top:'' s) \<noteq> ''none''"
    using n by auto
  show ?thesis
    using assms n' by (auto simp: fix_complete_outfit_bottom_def Let_def re_sub_none_needed sub_bottom_idem)
qed

lemma fix_rule4:
  assumes "\<not> is_complete_outfit (lower (extract_item ''Bottom:'' s))"
    and "lower (extract_item ''Top:'' s) = ''none needed'' \<or> lower (extract_item ''Top:'' s) = ''none''"
  shows "fix_complete_outfit_bottom s = Inr (substitute ''Top: (Please select a top item)'' ''Top:'' s)"
proof -
  have nc: "\<not> is_complete_outfit (lower (extract_item ''Top:'' s))"
    using assms(2) none_not_complete by auto
  show ?thesis
    using assms nc by (auto simp: fix_complete_outfit_bottom_def Let_def re_sub_placeholder)
qed

lemma fix_unchanged:
  assumes "\<not> is_complete_outfit (lower (extract_item ''Bottom:'' s))"
    and "\<not> is_complete_outfit (lower (extract_item ''Top:'' s))"
    and "\<not> (lower (extract_item ''Top:'' s) = ''none needed'' \<or> lower (extract_item ''Top:'' s) = ''none'')"
  shows "fix_complete_outfit_bottom s = Inr s"
  using assms by (auto simp: fix_complete_outfit_bottom_def Let_def)

lemma complete_value:
  assumes cb: "is_complete_outfit (lower (extract_item lbl s))"
    and wf: "outside_matches s = Some segs" and lbl: "lbl = ''Top:'' \<or> lbl = ''Bottom:''"
  shows "extract_item lbl s \<noteq> []" "\<not> is_space (hd (extract_item lbl s))"
    "newline \<notin> set (extract_item lbl s)" "\<not> any_label (extract_item lbl s)"
    "strip (extract_item lbl s) = extract_item lbl s" "re_search lbl s \<noteq> None"
proof -
  have "lower (extract_item lbl s) \<noteq> []" using complete_not_none[OF cb] by simp
  then show ne: "extract_item lbl s \<noteq> []" by auto
  show "\<not> is_space (hd (extract_item lbl s))" "newline \<notin> set (extract_item lbl s)"
    "strip (extract_item lbl s) = extract_item lbl s"
    using extracted_value[OF ne] by simp_all
  show "\<not> any_label (extract_item lbl s)" using wf lbl by (rule extracted_clean)
  show "re_search lbl s \<noteq> None" using ne by (auto simp: extract_item_def split: option.splits)
qed

section \<open>The properties of the specification\<close>

subsection \<open>Outfit repair: the swap of rule 1\<close>




subsection \<open>Wardrobe filter: the slot buckets\<close>

text \<open>\<^bold>\<open>C2\<close>, amended. The filter fills each slot bucket by that slot's own test, independently of the
  other slots. For any two slot names among tops, bottoms, shoes and accessories, the names the two
  buckets share are exactly the names borne by an item passing the first slot's test and by an item
  passing the second slot's test. The buckets are disjoint only where no such name exists.\<close>

theorem shared_bucket_names:
  assumes "slot1 \<in> set slot_names" "slot2 \<in> set slot_names"
    and "sel = filter_wardrobe rnd rules closet"
  shows "set (bucket sel slot1) \<inter> set (bucket sel slot2)
         = name ` {i \<in> set closet. item_selected rules slot1 i}
           \<inter> name ` {i \<in> set closet. item_selected rules slot2 i}"
  using assms by (simp add: set_bucket_sel)

theorem shared_bucket_names_witness:
  "set (bucket (filter_wardrobe (\<lambda>k. 3 * k + 1)
      \<lparr> keywords' = [''gym''], allowed_categories = [(''tops'', [''shirt'']), (''shoes'', [])],
        forbidden_categories = Some [''formal''], style_notes = ''sporty'' \<rparr>
      [\<lparr> name = ''blue shirt'', category = ''Shirt'' \<rparr>, \<lparr> name = ''white sneakers'', category = ''Shoes'' \<rparr>]) ''tops'')
   \<inter> set (bucket (filter_wardrobe (\<lambda>k. 3 * k + 1)
      \<lparr> keywords' = [''gym''], allowed_categories = [(''tops'', [''shirt'']), (''shoes'', [])],
        forbidden_categories = Some [''formal''], style_notes = ''sporty'' \<rparr>
      [\<lparr> name = ''blue shirt'', category = ''Shirt'' \<rparr>, \<lparr> name = ''white sneakers'', category = ''Shoes'' \<rparr>]) ''shoes'')
   = {''blue shirt''}"
proof -
  let ?R = "\<lparr> keywords' = [''gym''], allowed_categories = [(''tops'', [''shirt'']), (''shoes'', [])],
        forbidden_categories = Some [''formal''], style_notes = ''sporty'' \<rparr>"
  let ?W = "[\<lparr> name = ''blue shirt'', category = ''Shirt'' \<rparr>, \<lparr> name = ''white sneakers'', category = ''Shoes'' \<rparr>]"
  have a: "''tops'' \<in> set slot_names" "''shoes'' \<in> set slot_names" by (simp_all add: slot_names_def)
  have b: "name ` {i \<in> set ?W. item_selected ?R ''tops'' i} \<inter> name ` {i \<in> set ?W. item_selected ?R ''shoes'' i}
           = {''blue shirt''}" by code_simp
  show ?thesis using shared_bucket_names[OF a refl, of "\<lambda>k. 3 * k + 1" ?R ?W] b by simp
qed

text \<open>The buckets are not disjoint in general: a slot without allowed descriptors takes every item
  that is not forbidden, so a shirt allowed for tops is also in the bucket of shoes.\<close>

theorem buckets_overlap:
  "tops (filter_wardrobe (\<lambda>k. 0)
      \<lparr> keywords' = [''gym''], allowed_categories = [(''tops'', [''shirt'']), (''bottoms'', [''jeans''])],
        forbidden_categories = Some [''formal''], style_notes = ''sporty'' \<rparr>
      [\<lparr> name = ''blue shirt'', category = ''Shirt'' \<rparr>]) = [''blue shirt'']
   \<and> shoes (filter_wardrobe (\<lambda>k. 0)
      \<lparr> keywords' = [''gym''], allowed_categories = [(''tops'', [''shirt'']), (''bottoms'', [''jeans''])],
        forbidden_categories = Some [''formal''], style_notes = ''sporty'' \<rparr>
      [\<lparr> name = ''blue shirt'', category = ''Shirt'' \<rparr>]) = [''blue shirt'']"
  by code_simp

text \<open>\<^bold>\<open>C3\<close>, amended. The filter tests an item through its name and its category key, the category
  without its surrounding whitespace. Counted with multiplicity, the names in each of the four slot
  buckets are among the names of the items for which no forbidden descriptor occurs, ignoring case,
  in the name or in the category key. An item forbidden by that test is in none of the four
  buckets.\<close>

theorem buckets_hold_no_forbidden_item:
  assumes "sel = filter_wardrobe rnd rules closet"
    and "free = mset (map name (filter (\<lambda>i. \<not> is_item_forbidden rules (name i) (strip (category i))) closet))"
  shows "mset (tops sel) \<subseteq># free \<and> mset (bottoms sel) \<subseteq># free
       \<and> mset (shoes sel) \<subseteq># free \<and> mset (accessories sel) \<subseteq># free"
  unfolding assms mset_tops mset_bottoms mset_shoes mset_accessories
  by (intro conjI mset_filter_mono_names selected_not_forbidden)

theorem buckets_hold_no_forbidden_item_witness:
  "mset (tops (filter_wardrobe (\<lambda>k. 3 * k + 1)
      \<lparr> keywords' = [''gym''], allowed_categories = [(''tops'', [''shirt'']), (''shoes'', [])],
        forbidden_categories = Some [''formal''], style_notes = ''sporty'' \<rparr>
      [\<lparr> name = ''blue shirt'', category = ''Shirt'' \<rparr>, \<lparr> name = ''oxford shirt'', category = ''Formal wear'' \<rparr>]))
   \<subseteq># {#''blue shirt''#}"
proof -
  have "mset (map name (filter (\<lambda>i. \<not> is_item_forbidden
      \<lparr> keywords' = [''gym''], allowed_categories = [(''tops'', [''shirt'']), (''shoes'', [])],
        forbidden_categories = Some [''formal''], style_notes = ''sporty'' \<rparr> (name i) (strip (category i)))
      [\<lparr> name = ''blue shirt'', category = ''Shirt'' \<rparr>, \<lparr> name = ''oxford shirt'', category = ''Formal wear'' \<rparr>]))
     = {#''blue shirt''#}"
    by code_simp
  then show ?thesis
    using buckets_hold_no_forbidden_item[OF refl refl, of "\<lambda>k. 3 * k + 1"
      "\<lparr> keywords' = [''gym''], allowed_categories = [(''tops'', [''shirt'']), (''shoes'', [])],
        forbidden_categories = Some [''formal''], style_notes = ''sporty'' \<rparr>"
      "[\<lparr> name = ''blue shirt'', category = ''Shirt'' \<rparr>, \<lparr> name = ''oxford shirt'', category = ''Formal wear'' \<rparr>]"]
    by simp
qed

text \<open>With the category as it is stored the property fails: the category \<^verbatim>\<open>formal \<close> with a trailing
  blank contains the forbidden descriptor \<^verbatim>\<open>formal \<close>, but the category key \<^verbatim>\<open>formal\<close> does not, and
  the item is put into the bucket of tops.\<close>

theorem forbidden_by_raw_category_is_kept:
  "str_in (lower ''formal '') (lower (category \<lparr> name = ''oxford'', category = ''formal '' \<rparr>))
   \<and> tops (filter_wardrobe (\<lambda>k. 0)
        \<lparr> keywords' = [''gym''], allowed_categories = [(''tops'', [''shirt'', ''oxford''])],
          forbidden_categories = Some [''formal ''], style_notes = ''sporty'' \<rparr>
        [\<lparr> name = ''oxford'', category = ''formal '' \<rparr>]) = [''oxford'']"
  by code_simp

text \<open>\<^bold>\<open>C7\<close>, amended. For a slot whose list of allowed descriptors is empty or absent, the bucket holds,
  counted with multiplicity, exactly the names of the items that the filter's forbidden test lets
  through, the test being made on the name and on the category key.\<close>

theorem empty_allowed_bucket:
  assumes "sel = filter_wardrobe rnd rules closet"
    and "free = mset (map name (filter (\<lambda>i. \<not> is_item_forbidden rules (name i) (strip (category i))) closet))"
  shows "(allowed_for rules ''tops'' = [] \<longrightarrow> mset (tops sel) = free)
       \<and> (allowed_for rules ''bottoms'' = [] \<longrightarrow> mset (bottoms sel) = free)
       \<and> (allowed_for rules ''shoes'' = [] \<longrightarrow> mset (shoes sel) = free)
       \<and> (allowed_for rules ''accessories'' = [] \<longrightarrow> mset (accessories sel) = free)"
  unfolding assms
  by (simp add: mset_tops mset_bottoms mset_shoes mset_accessories selected_empty_allowed)

theorem empty_allowed_bucket_witness:
  "allowed_for \<lparr> keywords' = [''gym''], allowed_categories = [(''tops'', [''shirt'']), (''shoes'', [])],
        forbidden_categories = Some [''formal''], style_notes = ''sporty'' \<rparr> ''shoes'' = []
   \<and> mset (shoes (filter_wardrobe (\<lambda>k. 3 * k + 1)
      \<lparr> keywords' = [''gym''], allowed_categories = [(''tops'', [''shirt'']), (''shoes'', [])],
        forbidden_categories = Some [''formal''], style_notes = ''sporty'' \<rparr>
      [\<lparr> name = ''blue shirt'', category = ''Shirt'' \<rparr>, \<lparr> name = ''oxford shirt'', category = ''Formal wear'' \<rparr>,
       \<lparr> name = ''white sneakers'', category = ''Shoes'' \<rparr>]))
     = {#''blue shirt'', ''white sneakers''#}"
proof -
  let ?R = "\<lparr> keywords' = [''gym''], allowed_categories = [(''tops'', [''shirt'']), (''shoes'', [])],
        forbidden_categories = Some [''formal''], style_notes = ''sporty'' \<rparr>"
  let ?W = "[\<lparr> name = ''blue shirt'', category = ''Shirt'' \<rparr>, \<lparr> name = ''oxford shirt'', category = ''Formal wear'' \<rparr>,
       \<lparr> name = ''white sneakers'', category = ''Shoes'' \<rparr>]"
  have h: "allowed_for ?R ''shoes'' = []" by code_simp
  have f: "mset (map name (filter (\<lambda>i. \<not> is_item_forbidden ?R (name i) (strip (category i))) ?W))
           = {#''blue shirt'', ''white sneakers''#}" by code_simp
  have "mset (shoes (filter_wardrobe (\<lambda>k. 3 * k + 1) ?R ?W))
        = mset (map name (filter (\<lambda>i. \<not> is_item_forbidden ?R (name i) (strip (category i))) ?W))"
    using empty_allowed_bucket[OF refl refl, of ?R "\<lambda>k. 3 * k + 1" ?W] h by blast
  then show ?thesis using h f by simp
qed

text \<open>For an item that is forbidden only through the surrounding whitespace of its stored category
  the bucket of such a slot holds more than the items that are not forbidden: the descriptor
  \<^verbatim>\<open>formal \<close> occurs in the stored category, and the item is in the bucket of tops all the same.\<close>

theorem empty_allowed_bucket_keeps_raw_forbidden:
  "allowed_for \<lparr> keywords' = [''gym''], allowed_categories = [],
        forbidden_categories = Some [''formal ''], style_notes = ''sporty'' \<rparr> ''tops'' = []
   \<and> str_in (lower ''formal '') (lower (category \<lparr> name = ''oxford shirt'', category = ''formal '' \<rparr>))
   \<and> tops (filter_wardrobe (\<lambda>k. 0)
        \<lparr> keywords' = [''gym''], allowed_categories = [],
          forbidden_categories = Some [''formal ''], style_notes = ''sporty'' \<rparr>
        [\<lparr> name = ''oxford shirt'', category = ''formal '' \<rparr>]) = [''oxford shirt'']"
  by code_simp

text \<open>\<^bold>\<open>C8\<close>, amended. The two tests are the branches of one conditional, the dress test first. The
  dress list holds exactly the names of the items that are not forbidden and whose category contains
  one of dress, gown, frock, set, suit; the saree list holds exactly the names of the items that are
  not forbidden, whose category contains saree or sari, and whose category contains none of the
  dress keywords.\<close>

theorem dress_and_saree_lists:
  assumes "sel = filter_wardrobe rnd rules closet"
  shows "mset (dresses sel)
         = mset (map name (filter (\<lambda>i. \<not> is_item_forbidden rules (name i) (strip (category i))
                                      \<and> is_dress_category (category i)) closet))
       \<and> mset (sarees sel)
         = mset (map name (filter (\<lambda>i. \<not> is_item_forbidden rules (name i) (strip (category i))
                                      \<and> is_saree_category (category i)
                                      \<and> \<not> is_dress_category (category i)) closet))"
  unfolding assms mset_dresses mset_sarees
  by (intro conjI refl arg_cong[where f = mset] arg_cong[where f = "map name"] filter_cong) auto

theorem dress_and_saree_lists_witness:
  "mset (dresses (filter_wardrobe (\<lambda>k. k)
      \<lparr> keywords' = [''party''], allowed_categories = [], forbidden_categories = Some [''gym''],
        style_notes = ''festive'' \<rparr>
      [\<lparr> name = ''red gown'', category = ''Evening Gown'' \<rparr>, \<lparr> name = ''silk saree'', category = ''Saree'' \<rparr>,
       \<lparr> name = ''track pants'', category = ''Gym wear'' \<rparr>])) = {#''red gown''#}
   \<and> mset (sarees (filter_wardrobe (\<lambda>k. k)
      \<lparr> keywords' = [''party''], allowed_categories = [], forbidden_categories = Some [''gym''],
        style_notes = ''festive'' \<rparr>
      [\<lparr> name = ''red gown'', category = ''Evening Gown'' \<rparr>, \<lparr> name = ''silk saree'', category = ''Saree'' \<rparr>,
       \<lparr> name = ''track pants'', category = ''Gym wear'' \<rparr>])) = {#''silk saree''#}"
proof -
  let ?R = "\<lparr> keywords' = [''party''], allowed_categories = [], forbidden_categories = Some [''gym''],
        style_notes = ''festive'' \<rparr>"
  let ?W = "[\<lparr> name = ''red gown'', category = ''Evening Gown'' \<rparr>, \<lparr> name = ''silk saree'', category = ''Saree'' \<rparr>,
       \<lparr> name = ''track pants'', category = ''Gym wear'' \<rparr>]"
  have a: "mset (map name (filter (\<lambda>i. \<not> is_item_forbidden ?R (name i) (strip (category i))
                                      \<and> is_dress_category (category i)) ?W)) = {#''red gown''#}"
    by code_simp
  have b: "mset (map name (filter (\<lambda>i. \<not> is_item_forbidden ?R (name i) (strip (category i))
                                      \<and> is_saree_category (category i)
                                      \<and> \<not> is_dress_category (category i)) ?W)) = {#''silk saree''#}"
    by code_simp
  show ?thesis using dress_and_saree_lists[OF refl, of "\<lambda>k. k" ?R ?W] a b by simp
qed

text \<open>An item of category \<^verbatim>\<open>Saree Set\<close> is not forbidden and its category contains saree, yet it is
  classified as a dress only and the saree list stays empty.\<close>

theorem saree_set_is_no_saree:
  "is_saree_category (category \<lparr> name = ''silk saree'', category = ''Saree Set'' \<rparr>)
   \<and> \<not> is_item_forbidden \<lparr> keywords' = [''wedding''], allowed_categories = [],
          forbidden_categories = Some [''gym''], style_notes = ''festive'' \<rparr> ''silk saree'' ''Saree Set''
   \<and> sarees (filter_wardrobe (\<lambda>k. 0) \<lparr> keywords' = [''wedding''], allowed_categories = [],
          forbidden_categories = Some [''gym''], style_notes = ''festive'' \<rparr>
          [\<lparr> name = ''silk saree'', category = ''Saree Set'' \<rparr>]) = []"
  by code_simp

subsection \<open>Occasion matcher\<close>

text \<open>\<^bold>\<open>C6\<close>. The matcher lowers the user's text and compares it with the configured keywords as
  they are written, while the filter lowers the configured descriptors on both sides of its tests.
  A keyword written \<^verbatim>\<open>Wedding\<close> therefore never matches: for the input \<^verbatim>\<open>going to a Wedding\<close>, in
  which the keyword occurs even letter for letter, the matcher answers the default occasion
  casual instead of wedding.\<close>

theorem capitalised_keyword_is_missed:
  "map_sum id fst (match_occasion
     \<lparr> occasions = [(''wedding'', \<lparr> keywords' = [''Wedding''], allowed_categories = [],
                                    forbidden_categories = None, style_notes = ''festive'' \<rparr>),
                     (''casual'', \<lparr> keywords' = [''casual''], allowed_categories = [],
                                    forbidden_categories = None, style_notes = ''relaxed'' \<rparr>)],
       default_occasion = Some ''casual'' \<rparr>
     ''going to a Wedding'') = Inr ''casual''"
  by code_simp

text \<open>With the keyword written in lower case, as in the example of the specification, the occasion
  wedding is selected, also when it is not the first entry of the table.\<close>

lemma spec_example_wedding:
  "map_sum id fst (match_occasion
     \<lparr> occasions = [(''casual'', \<lparr> keywords' = [''casual''], allowed_categories = [],
                                    forbidden_categories = None, style_notes = ''relaxed'' \<rparr>),
                     (''wedding'', \<lparr> keywords' = [''wedding''], allowed_categories = [],
                                    forbidden_categories = None, style_notes = ''festive'' \<rparr>)],
       default_occasion = Some ''casual'' \<rparr>
     ''going to a wedding'') = Inr ''wedding''"
  by code_simp




subsection \<open>Outfit repair: what is rewritten\<close>




text \<open>\<^bold>\<open>C5\<close>, amended. If the first extracted Top value reads none or none needed, ignoring case, and
  the first extracted Bottom value contains no complete-outfit keyword, the repair returns the text
  with every match of \<^verbatim>\<open>Top:\<close> replaced by the placeholder line, and the first extracted Top value of
  the result is the placeholder. No error is raised.\<close>

theorem placeholder_for_none_top:
  assumes top: "lower (extract_item ''Top:'' s) = ''none needed'' \<or> lower (extract_item ''Top:'' s) = ''none''"
    and bottom: "\<not> is_complete_outfit (lower (extract_item ''Bottom:'' s))"
  shows "fix_complete_outfit_bottom s = Inr (re_sub_with (\<lambda>m. ''Top: (Please select a top item)'') ''Top:'' s)
       \<and> extract_item ''Top:'' (re_sub_with (\<lambda>m. ''Top: (Please select a top item)'') ''Top:'' s)
           = ''(Please select a top item)''"
proof -
  have nc: "\<not> is_complete_outfit (lower (extract_item ''Top:'' s))"
    using top none_not_complete by auto
  have bs: "backslash \<notin> set ''Top: (Please select a top item)''" by (simp add: backslash_def)
  have fx: "fix_complete_outfit_bottom s = Inr (substitute ''Top: (Please select a top item)'' ''Top:'' s)"
    using top bottom nc by (auto simp: fix_complete_outfit_bottom_def Let_def re_sub_literal[OF bs])
  have "extract_item ''Top:'' s \<noteq> []" using top by auto
  then obtain g where g: "re_search ''Top:'' s = Some g"
    by (auto simp: extract_item_def split: option.splits)
  have "re_search ''Top:'' (substitute ''Top: (Please select a top item)'' ''Top:'' s) = Some ''(Please select a top item)''"
    using search_after_sub[OF top_label_ok, of "''Top: (Please select a top item)''" "''(Please select a top item)''" s]
      placeholder_match g by simp
  then have "extract_item ''Top:'' (substitute ''Top: (Please select a top item)'' ''Top:'' s) = ''(Please select a top item)''"
    by (simp add: extract_item_def strip_literals)
  then show ?thesis using fx by simp
qed

theorem placeholder_for_none_top_witness:
  "lower (extract_item ''Top:'' ''Top: None\<newline>Bottom: black jeans\<newline>'') = ''none''
   \<and> fix_complete_outfit_bottom ''Top: None\<newline>Bottom: black jeans\<newline>''
       = Inr ''Top: (Please select a top item)\<newline>Bottom: black jeans\<newline>''
   \<and> extract_item ''Top:'' ''Top: (Please select a top item)\<newline>Bottom: black jeans\<newline>''
       = ''(Please select a top item)''"
proof -
  let ?s = "''Top: None\<newline>Bottom: black jeans\<newline>''"
  have top: "lower (extract_item ''Top:'' ?s) = ''none''" by code_simp
  have bottom: "\<not> is_complete_outfit (lower (extract_item ''Bottom:'' ?s))" by code_simp
  have r: "re_sub_with (\<lambda>m. ''Top: (Please select a top item)'') ''Top:'' ?s
           = ''Top: (Please select a top item)\<newline>Bottom: black jeans\<newline>''" by code_simp
  show ?thesis using placeholder_for_none_top[of ?s] top bottom r by simp
qed

text \<open>An empty Top value gets no placeholder: the fourth rule tests for none and none needed only.
  A text whose Top line is blank and a text without any Top line are both returned as they are.\<close>

theorem empty_top_gets_no_placeholder:
  "extract_item ''Top:'' ''Bottom: black jeans\<newline>Top: '' = []
   \<and> fix_complete_outfit_bottom ''Bottom: black jeans\<newline>Top: '' = Inr ''Bottom: black jeans\<newline>Top: ''
   \<and> re_search ''Top:'' ''Bottom: black jeans\<newline>'' = None
   \<and> extract_item ''Top:'' ''Bottom: black jeans\<newline>'' = []
   \<and> fix_complete_outfit_bottom ''Bottom: black jeans\<newline>'' = Inr ''Bottom: black jeans\<newline>''"
  by code_simp

text \<open>\<^bold>\<open>C10\<close>, amended. On a text segmented by its labels whose first extracted Bottom value holds no
  backslash, the repair returns a text that a second repair leaves as it is.\<close>

theorem repair_idempotent_on_segmented_text:
  assumes wf: "outside_matches s = Some segs"
    and bs: "backslash \<notin> set (extract_item ''Bottom:'' s)"
  shows "\<exists>t. fix_complete_outfit_bottom s = Inr t \<and> fix_complete_outfit_bottom t = Inr t"
proof -
  let ?cb = "is_complete_outfit (lower (extract_item ''Bottom:'' s))"
  let ?ct = "is_complete_outfit (lower (extract_item ''Top:'' s))"
  let ?nt = "lower (extract_item ''Top:'' s) = ''none needed'' \<or> lower (extract_item ''Top:'' s) = ''none''"
  consider (r1) "?cb \<and> (?nt \<or> extract_item ''Top:'' s = [])"
    | (r23) "\<not> (?cb \<and> (?nt \<or> extract_item ''Top:'' s = []))" "?cb \<or> ?ct"
    | (r4) "\<not> ?cb" "\<not> ?ct" "?nt"
    | (r0) "\<not> ?cb" "\<not> ?ct" "\<not> ?nt"
    by blast
  then show ?thesis
  proof cases
    case r1
    then have cb: ?cb and nt: "lower (extract_item ''Top:'' s) = ''none needed''
        \<or> lower (extract_item ''Top:'' s) = ''none'' \<or> extract_item ''Top:'' s = []" by auto
    define v where "v = extract_item ''Bottom:'' s"
    define u where "u = substitute (''Top: '' @ v) ''Top:'' s"
    define t where "t = substitute ''Bottom: None needed'' ''Bottom:'' u"
    note val = complete_value[OF cb wf is_bottom, folded v_def]
    have fx: "fix_complete_outfit_bottom s = Inr t"
      using fix_rule1[OF cb nt bs] by (simp add: t_def u_def v_def)
    have wfu: "outside_matches u = Some segs"
      unfolding u_def using val(1-4) wf by (rule outside_sub_top)
    have "re_search ''Top:'' t = re_search ''Top:'' u"
      unfolding t_def using wfu by (rule search_top_after_bottom)
    also have "\<dots> = (case re_search ''Top:'' s of None \<Rightarrow> None | Some g \<Rightarrow> Some v)"
      unfolding u_def using val(1-3) by (rule search_top_after_top)
    finally have tt: "extract_item ''Top:'' t = (if re_search ''Top:'' s = None then [] else v)"
      using val(5) by (auto simp: extract_item_def split: option.splits)
    have "re_search ''Bottom:'' u = re_search ''Bottom:'' s"
      unfolding u_def using val(1-4) wf by (rule search_bottom_after_top)
    then have "re_search ''Bottom:'' u \<noteq> None" using val(6) by simp
    then have "re_search ''Bottom:'' t = Some ''None needed''"
      unfolding t_def by (auto simp: search_bottom_after_bottom split: option.splits)
    then have bt: "extract_item ''Bottom:'' t = ''None needed''"
      by (simp add: extract_item_def strip_literals)
    have idem: "substitute ''Bottom: None needed'' ''Bottom:'' t = t"
      unfolding t_def by (rule sub_bottom_idem)
    have ncb: "\<not> is_complete_outfit (lower (extract_item ''Bottom:'' t))"
      using bt none_not_complete(4) by simp
    have "fix_complete_outfit_bottom t = Inr t"
    proof (cases "re_search ''Top:'' s = None")
      case True
      then have "extract_item ''Top:'' t = []" using tt by simp
      then have "\<not> is_complete_outfit (lower (extract_item ''Top:'' t))"
        "\<not> (lower (extract_item ''Top:'' t) = ''none needed'' \<or> lower (extract_item ''Top:'' t) = ''none'')"
        using none_not_complete(3) by simp_all
      then show ?thesis using ncb by (intro fix_unchanged)
    next
      case False
      then have "extract_item ''Top:'' t = v" using tt by (simp only: if_False)
      then have "is_complete_outfit (lower (extract_item ''Top:'' t))" using cb by (simp add: v_def)
      then have "fix_complete_outfit_bottom t = Inr (substitute ''Bottom: None needed'' ''Bottom:'' t)"
        using ncb by (intro fix_rule23) auto
      then show ?thesis using idem by simp
    qed
    then show ?thesis using fx by simp
  next
    case r23
    define t where "t = substitute ''Bottom: None needed'' ''Bottom:'' s"
    have "\<not> (?cb \<and> (lower (extract_item ''Top:'' s) = ''none needed''
        \<or> lower (extract_item ''Top:'' s) = ''none'' \<or> extract_item ''Top:'' s = []))"
      using r23(1) by blast
    then have fx: "fix_complete_outfit_bottom s = Inr t" unfolding t_def using r23(2) by (rule fix_rule23)
    have nn: "\<not> ?nt" using r23 complete_not_none[of "lower (extract_item ''Top:'' s)"] by auto
    have "re_search ''Top:'' t = re_search ''Top:'' s"
      unfolding t_def using wf by (rule search_top_after_bottom)
    then have tt: "extract_item ''Top:'' t = extract_item ''Top:'' s" by (simp add: extract_item_def)
    have "re_search ''Bottom:'' t = None \<or> re_search ''Bottom:'' t = Some ''None needed''"
      unfolding t_def by (auto simp: search_bottom_after_bottom split: option.splits)
    then have "extract_item ''Bottom:'' t = [] \<or> extract_item ''Bottom:'' t = ''None needed''"
      by (auto simp: extract_item_def strip_literals)
    then have ncb: "\<not> is_complete_outfit (lower (extract_item ''Bottom:'' t))"
      using none_not_complete(3,4) by auto
    have idem: "substitute ''Bottom: None needed'' ''Bottom:'' t = t"
      unfolding t_def by (rule sub_bottom_idem)
    have "fix_complete_outfit_bottom t = Inr t"
    proof (cases ?ct)
      case True
      then have "is_complete_outfit (lower (extract_item ''Top:'' t))" using tt by simp
      then have "fix_complete_outfit_bottom t = Inr (substitute ''Bottom: None needed'' ''Bottom:'' t)"
        using ncb by (intro fix_rule23) auto
      then show ?thesis using idem by simp
    next
      case False
      then show ?thesis using ncb nn tt by (intro fix_unchanged) simp_all
    qed
    then show ?thesis using fx by simp
  next
    case r4
    define t where "t = substitute (''Top: '' @ ''(Please select a top item)'') ''Top:'' s"
    have fx: "fix_complete_outfit_bottom s = Inr t"
      unfolding t_def using fix_rule4[OF r4(1,3)] by simp
    have "extract_item ''Top:'' s \<noteq> []" using r4(3) by auto
    then have top: "re_search ''Top:'' s \<noteq> None" by (auto simp: extract_item_def split: option.splits)
    have "re_search ''Top:'' t = (case re_search ''Top:'' s of None \<Rightarrow> None
            | Some g \<Rightarrow> Some ''(Please select a top item)'')"
      unfolding t_def using placeholder_value by (rule search_top_after_top)
    then have tt: "extract_item ''Top:'' t = ''(Please select a top item)''"
      using top by (auto simp: extract_item_def strip_literals split: option.splits)
    have "re_search ''Bottom:'' t = re_search ''Bottom:'' s"
      unfolding t_def using placeholder_value placeholder_clean wf by (rule search_bottom_after_top)
    then have bt: "extract_item ''Bottom:'' t = extract_item ''Bottom:'' s" by (simp add: extract_item_def)
    have "lower ''(Please select a top item)'' \<noteq> ''none needed''"
      "lower ''(Please select a top item)'' \<noteq> ''none''" by simp_all
    then have "fix_complete_outfit_bottom t = Inr t"
      using tt bt r4(1) none_not_complete(5) by (intro fix_unchanged) simp_all
    then show ?thesis using fx by simp
  next
    case r0
    then have "fix_complete_outfit_bottom s = Inr s" by (rule fix_unchanged)
    then show ?thesis by simp
  qed
qed

theorem repair_idempotent_on_segmented_text_witness:
  "fix_complete_outfit_bottom ''Top: red dress\<newline>Bottom: jeans\<newline>Shoes: flats''
     = Inr ''Top: red dress\<newline>Bottom: None needed\<newline>Shoes: flats''
   \<and> fix_complete_outfit_bottom ''Top: red dress\<newline>Bottom: None needed\<newline>Shoes: flats''
     = Inr ''Top: red dress\<newline>Bottom: None needed\<newline>Shoes: flats''"
proof -
  let ?s = "''Top: red dress\<newline>Bottom: jeans\<newline>Shoes: flats''"
  have wf: "outside_matches ?s = Some [[], ''\<newline>'', ''\<newline>Shoes: flats'']" by code_simp
  have bs: "backslash \<notin> set (extract_item ''Bottom:'' ?s)" by code_simp
  have fx: "fix_complete_outfit_bottom ?s = Inr ''Top: red dress\<newline>Bottom: None needed\<newline>Shoes: flats''"
    by code_simp
  from repair_idempotent_on_segmented_text[OF wf bs] obtain t where t: "fix_complete_outfit_bottom ?s = Inr t"
    "fix_complete_outfit_bottom t = Inr t" by blast
  have "t = ''Top: red dress\<newline>Bottom: None needed\<newline>Shoes: flats''" using t(1) fx by simp
  then show ?thesis using t fx by simp
qed

text \<open>Without the segmentation the repair is not idempotent. In the text below the second Top line
  holds a Bottom label. The first pass replaces both Top lines by the placeholder, which removes the
  first match of \<^verbatim>\<open>Bottom:\<close>; the second pass then extracts saree as the Bottom value and rewrites
  the Bottom line.\<close>

theorem repair_not_idempotent:
  "fix_complete_outfit_bottom ''Top: none\<newline>Top: Bottom: a\<newline>Bottom: saree''
     = Inr ''Top: (Please select a top item)\<newline>Top: (Please select a top item)\<newline>Bottom: saree''
   \<and> fix_complete_outfit_bottom
       ''Top: (Please select a top item)\<newline>Top: (Please select a top item)\<newline>Bottom: saree''
     = Inr ''Top: (Please select a top item)\<newline>Top: (Please select a top item)\<newline>Bottom: None needed''"
  by code_simp

end
